theory Spec2Isabelle
  imports Main "HOL-Library.Product_Lexorder" "HOL-Library.Multiset"
begin

section \<open>Data model (model/model.py, schemas/schemas.py)\<close>

text \<open>
  Every table of \<^verbatim>\<open>model.py\<close> is a list of records, in insertion order. Python and SQL
  integers are \<^typ>\<open>int\<close>, nullable columns are \<^typ>\<open>'a option\<close>, strings are
  \<^typ>\<open>string\<close>. A \<^verbatim>\<open>DateTime\<close> is the number of microseconds since a fixed epoch.
  The surrogate keys of \<^verbatim>\<open>seats\<close> and \<^verbatim>\<open>show_seats\<close>, the price of a show and
  the creation time of a booking are never read by the booking logic and are left out.
\<close>

record Movie =
  movie_id :: int
  movie_title :: string
  movie_duration_minutes :: int

record Theater =
  theater_id :: int
  theater_name :: string
  theater_location :: "string option"

record Hall =
  hall_id :: int
  hall_theater_id :: int
  hall_name :: string

record Seat =
  seat_hall_id :: int
  seat_row_index :: int
  seat_number :: int
  seat_is_aisle :: bool

record Show =
  show_id :: int
  show_movie_id :: int
  show_hall_id :: int
  show_start_time :: int

record ShowSeat =
  ss_show_id :: int
  ss_row_index :: int
  ss_seat_number :: int
  ss_status :: string
  ss_booking_id :: "int option"

record Booking =
  booking_id :: int
  booking_show_id :: int
  booking_group_name :: "string option"

text \<open>
  The database: the tables, and for each autoincrement primary key that the code reads
  the last value its sequence has issued. A sequence is not transactional: a key drawn by
  an \<^verbatim>\<open>INSERT\<close> that is rolled back afterwards is not issued again.
\<close>

record database =
  movies :: "Movie list"
  theaters :: "Theater list"
  halls :: "Hall list"
  seats :: "Seat list"
  shows_tbl :: "Show list"
  show_seats :: "ShowSeat list"
  bookings :: "Booking list"
  movies_id_seq :: int
  theaters_id_seq :: int
  halls_id_seq :: int
  shows_id_seq :: int
  bookings_id_seq :: int

text \<open>Request and response bodies of \<^verbatim>\<open>schemas.py\<close>.\<close>

record MovieIn =
  mi_title :: string
  mi_duration_minutes :: int

record TheaterIn =
  ti_name :: string
  ti_location :: "string option"

record HallCreateRow =
  hr_row_index :: int
  hr_seat_count :: int
  hr_aisle_seats :: "int list option"

record HallCreate =
  hc_name :: string
  hc_rows :: "HallCreateRow list"

record ShowCreate =
  sc_movie_id :: int
  sc_hall_id :: int
  sc_start_time :: int

record BookingRequest =
  br_show_id :: int
  br_group_name :: "string option"
  br_seats_requested :: int

record BookingResponse =
  resp_booking_id :: int
  resp_seats :: "(int \<times> int) list"

record suggestion =
  sg_show_id :: int
  sg_start_time :: int
  sg_seats :: "(int \<times> int) list"

text \<open>
  An \<^verbatim>\<open>HTTPException\<close> carries its status code and its detail; the detail of the
  "no contiguous seats" failure is a message together with the suggestion list.
  \<open>IntegrityError\<close> is what the database raises when a commit breaks a declared
  constraint, \<open>InvalidRequestError\<close> what the session raises when \<^verbatim>\<open>begin()\<close> is called
  on it while it is in a transaction.
\<close>

datatype detail = Msg string | MsgSuggestions string "suggestion list"

datatype error = HTTPException int detail | IntegrityError | InvalidRequestError

section \<open>The database session\<close>

text \<open>
  A session is the stored tables together with the log of row locks taken by
  \<^verbatim>\<open>SELECT ... FOR UPDATE\<close>: one entry (show, rows) per locking statement. A plain
  \<^verbatim>\<open>SELECT\<close> (\<open>execute\<close>) reads the store and changes nothing.
\<close>

record session =
  store :: database
  lock_log :: "(int \<times> int list) list"

definition execute :: "(database \<Rightarrow> 'a) \<Rightarrow> session \<Rightarrow> 'a \<times> session" where
  "execute q s = (q (store s), s)"

definition execute_for_update :: "int \<Rightarrow> int list \<Rightarrow> session \<Rightarrow> session" where
  "execute_for_update sid rows_to_lock s = s\<lparr>lock_log := lock_log s @ [(sid, rows_to_lock)]\<rparr>"

text \<open>
  A rollback restores the tables as they were saved; the sequences keep the values they
  have reached.
\<close>

definition rollback :: "database \<Rightarrow> database \<Rightarrow> database" where
  "rollback saved db =
     saved\<lparr>movies_id_seq := movies_id_seq db, theaters_id_seq := theaters_id_seq db,
           halls_id_seq := halls_id_seq db, shows_id_seq := shows_id_seq db,
           bookings_id_seq := bookings_id_seq db\<rparr>"

text \<open>
  \<^verbatim>\<open>async with db.begin()\<close>. The session begins a transaction by itself with the first
  statement it runs (\<^verbatim>\<open>db.get\<close>, \<^verbatim>\<open>db.execute\<close>), and \<^verbatim>\<open>begin()\<close> on a session that
  is in a transaction raises \<open>InvalidRequestError\<close> without entering the block. The
  first argument says whether the session has run a statement before the call. On a
  session that has not, the block runs; it is committed when it returns and rolled back
  when it raises.
\<close>

definition transaction ::
  "bool \<Rightarrow> (session \<Rightarrow> (error + 'a) \<times> session) \<Rightarrow> session \<Rightarrow> (error + 'a) \<times> session" where
  "transaction has_begun body s =
     (if has_begun then (Inl InvalidRequestError, s)
      else case body s of
             (Inl e, s') \<Rightarrow> (Inl e, s'\<lparr>store := rollback (store s) (store s')\<rparr>)
           | (Inr v, s') \<Rightarrow> (Inr v, s'))"

section \<open>Block finder (routers/user.py, find\_contiguous\_in\_show)\<close>

text \<open>
  \<^verbatim>\<open>select(ShowSeat).where(ShowSeat.show_id == show_id).order_by(row_index, seat_number)\<close>
\<close>

definition select_show_seats_ordered :: "int \<Rightarrow> database \<Rightarrow> ShowSeat list" where
  "select_show_seats_ordered sid db =
     sort_key (\<lambda>x. (ss_row_index x, ss_seat_number x))
       (filter (\<lambda>x. ss_show_id x = sid) (show_seats db))"

text \<open>
  \<^verbatim>\<open>rows[r].append(n)\<close> on a \<^verbatim>\<open>defaultdict(list)\<close>: the dictionary keeps its keys in
  insertion order, so it is an association list.
\<close>

fun rows_append :: "(int \<times> int list) list \<Rightarrow> int \<Rightarrow> int \<Rightarrow> (int \<times> int list) list" where
  "rows_append [] r n = [(r, [n])]"
| "rows_append ((r', ns) # rest) r n =
     (if r' = r then (r', ns @ [n]) # rest else (r', ns) # rows_append rest r n)"

definition group_by_row :: "ShowSeat list \<Rightarrow> (int \<times> int list) list" where
  "group_by_row all_seats =
     fold (\<lambda>x rows. if ss_status x = ''available''
                     then rows_append rows (ss_row_index x) (ss_seat_number x) else rows)
       all_seats []"

text \<open>
  Python's \<^verbatim>\<open>xs[i:j]\<close>: a negative bound counts from the end, and both bounds are
  clamped to the list.
\<close>

definition py_slice :: "'a list \<Rightarrow> int \<Rightarrow> int \<Rightarrow> 'a list" where
  "py_slice xs i j =
     (let n = int (length xs);
          lo = (if i < 0 then max (i + n) 0 else min i n);
          hi = (if j < 0 then max (j + n) 0 else min j n)
      in drop (nat lo) (take (nat hi) xs))"

text \<open>\<^verbatim>\<open>all(window[j] + 1 == window[j+1] for j in range(len(window)-1))\<close>\<close>

definition strictly_consecutive :: "int list \<Rightarrow> bool" where
  "strictly_consecutive window =
     list_all (\<lambda>j. window ! j + 1 = window ! (j + 1)) [0..<length window - 1]"

text \<open>The sliding window over one row: \<^verbatim>\<open>for i in range(len(seat_list) - group_size + 1)\<close>.\<close>

fun first_window :: "int list \<Rightarrow> int \<Rightarrow> nat list \<Rightarrow> int list option" where
  "first_window seat_list group_size [] = None"
| "first_window seat_list group_size (i # is) =
     (let window = py_slice seat_list (int i) (int i + group_size)
      in if strictly_consecutive window then Some window
         else first_window seat_list group_size is)"

definition scan_row :: "int list \<Rightarrow> int \<Rightarrow> int list option" where
  "scan_row seat_list group_size =
     (let sorted_list = sort seat_list
      in first_window sorted_list group_size
           [0..<nat (int (length sorted_list) - group_size + 1)])"

text \<open>\<^verbatim>\<open>for row_idx, seat_list in rows.items()\<close>\<close>

fun scan_rows :: "(int \<times> int list) list \<Rightarrow> int \<Rightarrow> (int \<times> int) list option" where
  "scan_rows [] group_size = None"
| "scan_rows ((row_idx, seat_list) # rest) group_size =
     (case scan_row seat_list group_size of
        Some window \<Rightarrow> Some (map (\<lambda>sn. (row_idx, sn)) window)
      | None \<Rightarrow> scan_rows rest group_size)"

definition find_contiguous_in_show ::
  "session \<Rightarrow> int \<Rightarrow> int \<Rightarrow> (int \<times> int) list option \<times> session" where
  "find_contiguous_in_show s sid group_size =
     (case execute (select_show_seats_ordered sid) s of
        (all_seats, s1) \<Rightarrow>
          if all_seats = [] then (None, s1)
          else (scan_rows (group_by_row all_seats) group_size, s1))"

section \<open>Suggestions (routers/user.py, suggest\_other\_shows)\<close>

definition timedelta_minutes :: "int \<Rightarrow> int" where
  "timedelta_minutes m = m * 60000000"

text \<open>
  \<^verbatim>\<open>select(Show).where(Show.start_time.between(start, end)).order_by(Show.start_time)\<close>;
  \<^verbatim>\<open>BETWEEN\<close> includes both bounds.
\<close>

definition select_shows_between :: "int \<Rightarrow> int \<Rightarrow> database \<Rightarrow> Show list" where
  "select_shows_between start_t end_t db =
     sort_key show_start_time
       (filter (\<lambda>x. start_t \<le> show_start_time x \<and> show_start_time x \<le> end_t) (shows_tbl db))"

text \<open>\<^verbatim>\<open>if contiguous:\<close> is false for \<^verbatim>\<open>None\<close> and for the empty list.\<close>

definition truthy :: "'a list option \<Rightarrow> bool" where
  "truthy v = (case v of None \<Rightarrow> False | Some xs \<Rightarrow> xs \<noteq> [])"

fun suggest_loop ::
  "session \<Rightarrow> Show list \<Rightarrow> int \<Rightarrow> suggestion list \<Rightarrow> suggestion list \<times> session" where
  "suggest_loop s [] group_size suggestions = (suggestions, s)"
| "suggest_loop s (c # cs) group_size suggestions =
     (case find_contiguous_in_show s (show_id c) group_size of
        (contiguous, s1) \<Rightarrow>
          if truthy contiguous
          then suggest_loop s1 cs group_size
                 (suggestions @ [\<lparr>sg_show_id = show_id c, sg_start_time = show_start_time c,
                                   sg_seats = the contiguous\<rparr>])
          else suggest_loop s1 cs group_size suggestions)"

definition suggest_other_shows ::
  "session \<Rightarrow> Show \<Rightarrow> int \<Rightarrow> int \<Rightarrow> suggestion list \<times> session" where
  "suggest_other_shows s target_show group_size time_window_minutes =
     (let start_t = show_start_time target_show - timedelta_minutes time_window_minutes;
          end_t = show_start_time target_show + timedelta_minutes time_window_minutes
      in case execute (select_shows_between start_t end_t) s of
           (candidates, s1) \<Rightarrow> suggest_loop s1 candidates group_size [])"

section \<open>Booking (routers/user.py, book\_group and get\_booking)\<close>

text \<open>
  \<open>book_group\<close> has two phases. The search (show lookup at line 178, finder, suggestions)
  runs unlocked. The commit is the \<^verbatim>\<open>async with db.begin()\<close> block of line 193, whose
  body is \<open>book_group_locked\<close>: row lock, re-check, booking record, seat update.
\<close>

definition book_group_search ::
  "session \<Rightarrow> BookingRequest \<Rightarrow> (error + (int \<times> int) list) \<times> session" where
  "book_group_search s payload =
     (case execute (\<lambda>db. find (\<lambda>x. show_id x = br_show_id payload) (shows_tbl db)) s of
        (None, s1) \<Rightarrow> (Inl (HTTPException 404 (Msg ''show not found'')), s1)
      | (Some show, s1) \<Rightarrow>
          (case find_contiguous_in_show s1 (br_show_id payload) (br_seats_requested payload) of
             (None, s2) \<Rightarrow>
               (case suggest_other_shows s2 show (br_seats_requested payload) 180 of
                  (suggestions, s3) \<Rightarrow>
                    (Inl (HTTPException 409
                       (MsgSuggestions ''cannot find contiguous seats in requested show''
                          suggestions)), s3))
           | (Some contiguous, s2) \<Rightarrow> (Inr contiguous, s2)))"

text \<open>
  The \<^verbatim>\<open>WHERE\<close> clause shared by the re-check and the update:
  \<^verbatim>\<open>show_id == payload.show_id and (row_index, seat_number) in contiguous\<close>.
\<close>

definition in_block :: "int \<Rightarrow> (int \<times> int) list \<Rightarrow> ShowSeat \<Rightarrow> bool" where
  "in_block sid contiguous x =
     (ss_show_id x = sid \<and> (ss_row_index x, ss_seat_number x) \<in> set contiguous)"

definition update_show_seats :: "int \<Rightarrow> (int \<times> int) list \<Rightarrow> int \<Rightarrow> database \<Rightarrow> database" where
  "update_show_seats sid contiguous bid db =
     db\<lparr>show_seats :=
          map (\<lambda>x. if in_block sid contiguous x
                   then x\<lparr>ss_status := ''booked'', ss_booking_id := Some bid\<rparr> else x)
            (show_seats db)\<rparr>"

definition book_group_locked ::
  "BookingRequest \<Rightarrow> (int \<times> int) list \<Rightarrow> session \<Rightarrow> (error + BookingResponse) \<times> session" where
  "book_group_locked payload contiguous s =
     (let rows_to_lock = sort (remdups (map fst contiguous));
          s1 = execute_for_update (br_show_id payload) rows_to_lock s
      in case execute (\<lambda>db. filter (in_block (br_show_id payload) contiguous) (show_seats db)) s1 of
           (seats_now, s2) \<Rightarrow>
             if list_ex (\<lambda>x. ss_status x \<noteq> ''available'') seats_now
                \<or> length seats_now \<noteq> length contiguous
             then (Inl (HTTPException 409 (Msg
                    ''some seats became unavailable while booking; please retry or choose alternatives'')),
                   s2)
             else
               (let db = store s2;
                    booking = \<lparr>booking_id = bookings_id_seq db + 1,
                               booking_show_id = br_show_id payload,
                               booking_group_name = br_group_name payload\<rparr>;
                    db1 = db\<lparr>bookings := bookings db @ [booking],
                             bookings_id_seq := booking_id booking\<rparr>;
                    db2 = update_show_seats (br_show_id payload) contiguous (booking_id booking) db1
                in (Inr \<lparr>resp_booking_id = booking_id booking, resp_seats = contiguous\<rparr>,
                    s2\<lparr>store := db2\<rparr>)))"

text \<open>
  When the handler reaches \<^verbatim>\<open>db.begin()\<close> its session has run \<^verbatim>\<open>db.get\<close> (line 178)
  and the query of the finder (line 134), so it is in a transaction.
\<close>

definition book_group_commit ::
  "BookingRequest \<Rightarrow> (int \<times> int) list \<Rightarrow> session \<Rightarrow> (error + BookingResponse) \<times> session" where
  "book_group_commit payload contiguous s =
     transaction True (book_group_locked payload contiguous) s"

definition book_group :: "session \<Rightarrow> BookingRequest \<Rightarrow> (error + BookingResponse) \<times> session" where
  "book_group s payload =
     (case book_group_search s payload of
        (Inl e, s1) \<Rightarrow> (Inl e, s1)
      | (Inr contiguous, s1) \<Rightarrow> book_group_commit payload contiguous s1)"

definition get_booking ::
  "session \<Rightarrow> int \<Rightarrow> (error + Booking \<times> (int \<times> int) list) \<times> session" where
  "get_booking s bid =
     (case execute (\<lambda>db. find (\<lambda>b. booking_id b = bid) (bookings db)) s of
        (None, s1) \<Rightarrow> (Inl (HTTPException 404 (Msg ''booking not found'')), s1)
      | (Some b, s1) \<Rightarrow>
          (case execute (\<lambda>db. filter (\<lambda>x. ss_booking_id x = Some bid) (show_seats db)) s1 of
             (seats_found, s2) \<Rightarrow>
               (Inr (b, map (\<lambda>x. (ss_row_index x, ss_seat_number x)) seats_found), s2)))"

section \<open>Catalog (routers/user.py, create\_movie to create\_show)\<close>

definition create_movie :: "session \<Rightarrow> MovieIn \<Rightarrow> Movie \<times> session" where
  "create_movie s payload =
     (let db = store s;
          m = \<lparr>movie_id = movies_id_seq db + 1, movie_title = mi_title payload,
               movie_duration_minutes = mi_duration_minutes payload\<rparr>
      in (m, s\<lparr>store := db\<lparr>movies := movies db @ [m], movies_id_seq := movie_id m\<rparr>\<rparr>))"

definition create_theater :: "session \<Rightarrow> TheaterIn \<Rightarrow> Theater \<times> session" where
  "create_theater s payload =
     (let db = store s;
          t = \<lparr>theater_id = theaters_id_seq db + 1, theater_name = ti_name payload,
               theater_location = ti_location payload\<rparr>
      in (t, s\<lparr>store := db\<lparr>theaters := theaters db @ [t], theaters_id_seq := theater_id t\<rparr>\<rparr>))"

text \<open>
  The unique constraints of \<^verbatim>\<open>model.py\<close>: \<^verbatim>\<open>uq_hall_row_seat\<close> on \<^verbatim>\<open>seats\<close> and
  \<^verbatim>\<open>uq_show_row_seat\<close> on \<^verbatim>\<open>show_seats\<close>.
\<close>

definition uq_hall_row_seat :: "Seat list \<Rightarrow> bool" where
  "uq_hall_row_seat xs = distinct (map (\<lambda>x. (seat_hall_id x, seat_row_index x, seat_number x)) xs)"

definition uq_show_row_seat :: "ShowSeat list \<Rightarrow> bool" where
  "uq_show_row_seat xs = distinct (map (\<lambda>x. (ss_show_id x, ss_row_index x, ss_seat_number x)) xs)"

text \<open>
  The seat layout loop of \<open>create_hall\<close>: the seats added to the session, or the
  exception raised at the first row with fewer than 6 seats.
\<close>

definition row_seats :: "int \<Rightarrow> HallCreateRow \<Rightarrow> Seat list" where
  "row_seats hid r =
     map (\<lambda>seat_num.
            \<lparr>seat_hall_id = hid, seat_row_index = hr_row_index r, seat_number = seat_num,
             seat_is_aisle =
               (seat_num \<in> set (case hr_aisle_seats r of None \<Rightarrow> [] | Some a \<Rightarrow> a))\<rparr>)
       [1..hr_seat_count r]"

fun seat_layout :: "int \<Rightarrow> HallCreateRow list \<Rightarrow> error + Seat list" where
  "seat_layout hid [] = Inr []"
| "seat_layout hid (r # rs) =
     (if hr_seat_count r < 6
      then Inl (HTTPException 400 (Msg ''each row must have at least 6 seats''))
      else case seat_layout hid rs of
             Inl e \<Rightarrow> Inl e
           | Inr later \<Rightarrow> Inr (row_seats hid r @ later))"

text \<open>
  \<open>create_hall\<close> flushes the hall, which draws its key, and commits only after the loop.
  When the loop raises, and when the commit fails because the new seats break
  \<^verbatim>\<open>uq_hall_row_seat\<close>, the request is rolled back: no hall and no seat is stored.
\<close>

definition create_hall :: "session \<Rightarrow> int \<Rightarrow> HallCreate \<Rightarrow> (error + Hall) \<times> session" where
  "create_hall s tid payload =
     (let db = store s
      in case find (\<lambda>t. theater_id t = tid) (theaters db) of
           None \<Rightarrow> (Inl (HTTPException 404 (Msg ''theater not found'')), s)
         | Some t \<Rightarrow>
             (let h = \<lparr>hall_id = halls_id_seq db + 1, hall_theater_id = tid,
                       hall_name = hc_name payload\<rparr>;
                  flushed = db\<lparr>halls := halls db @ [h], halls_id_seq := hall_id h\<rparr>
              in case seat_layout (hall_id h) (hc_rows payload) of
                   Inl e \<Rightarrow> (Inl e, s\<lparr>store := rollback db flushed\<rparr>)
                 | Inr new_seats \<Rightarrow>
                     if uq_hall_row_seat (seats db @ new_seats)
                     then (Inr h, s\<lparr>store := flushed\<lparr>seats := seats db @ new_seats\<rparr>\<rparr>)
                     else (Inl IntegrityError, s\<lparr>store := rollback db flushed\<rparr>)))"

text \<open>
  The request body is validated against \<^verbatim>\<open>HallCreateRow\<close> before the handler runs:
  \<^verbatim>\<open>row_index: conint(ge=1)\<close>, \<^verbatim>\<open>seat_count: conint(ge=6)\<close>.
\<close>

definition HallCreate_valid :: "HallCreate \<Rightarrow> bool" where
  "HallCreate_valid payload =
     list_all (\<lambda>r. 1 \<le> hr_row_index r \<and> 6 \<le> hr_seat_count r) (hc_rows payload)"

definition post_hall :: "session \<Rightarrow> int \<Rightarrow> HallCreate \<Rightarrow> (error + Hall) \<times> session" where
  "post_hall s tid payload =
     (if HallCreate_valid payload then create_hall s tid payload
      else (Inl (HTTPException 422 (Msg ''validation error'')), s))"

text \<open>
  \<open>create_show\<close> copies the seats of the hall. The show has a new key, so the copies
  cannot break \<^verbatim>\<open>uq_show_row_seat\<close> in a store that obeys the constraints of the schema.
\<close>

definition create_show :: "session \<Rightarrow> ShowCreate \<Rightarrow> (error + Show) \<times> session" where
  "create_show s payload =
     (let db = store s
      in case (find (\<lambda>m. movie_id m = sc_movie_id payload) (movies db),
               find (\<lambda>h. hall_id h = sc_hall_id payload) (halls db)) of
           (Some movie, Some hall) \<Rightarrow>
             (let show = \<lparr>show_id = shows_id_seq db + 1,
                          show_movie_id = sc_movie_id payload, show_hall_id = sc_hall_id payload,
                          show_start_time = sc_start_time payload\<rparr>;
                  hall_seats = filter (\<lambda>x. seat_hall_id x = sc_hall_id payload) (seats db);
                  new_seats =
                    map (\<lambda>hs. \<lparr>ss_show_id = show_id show, ss_row_index = seat_row_index hs,
                               ss_seat_number = seat_number hs, ss_status = ''available'',
                               ss_booking_id = None\<rparr>) hall_seats
              in (Inr show, s\<lparr>store := db\<lparr>shows_tbl := shows_tbl db @ [show],
                                            show_seats := show_seats db @ new_seats,
                                            shows_id_seq := show_id show\<rparr>\<rparr>))
         | _ \<Rightarrow> (Inl (HTTPException 404 (Msg ''movie or hall not found'')), s))"

section \<open>Sequences of requests\<close>

text \<open>The requests that write, served one after the other from the empty database.\<close>

datatype request =
    CreateMovie MovieIn
  | CreateTheater TheaterIn
  | CreateHall int HallCreate
  | CreateShow ShowCreate
  | BookGroup BookingRequest

fun serve :: "request \<Rightarrow> session \<Rightarrow> session" where
  "serve (CreateMovie p) s = snd (create_movie s p)"
| "serve (CreateTheater p) s = snd (create_theater s p)"
| "serve (CreateHall tid p) s = snd (post_hall s tid p)"
| "serve (CreateShow p) s = snd (create_show s p)"
| "serve (BookGroup p) s = snd (book_group s p)"

definition empty_db :: database where
  "empty_db = \<lparr>movies = [], theaters = [], halls = [], seats = [], shows_tbl = [],
               show_seats = [], bookings = [], movies_id_seq = 0, theaters_id_seq = 0,
               halls_id_seq = 0, shows_id_seq = 0, bookings_id_seq = 0\<rparr>"

definition initial :: session where
  "initial = \<lparr>store = empty_db, lock_log = []\<rparr>"

definition run :: "request list \<Rightarrow> session" where
  "run reqs = fold serve reqs initial"

section \<open>Availability and free runs\<close>

text \<open>
  What the claims about the finder speak of: a seat (row \<open>r\<close>, number \<open>n\<close>) of a show
  is available, and a free run of \<open>k\<close> seats starts at seat \<open>a\<close> of row \<open>r\<close>.
\<close>

definition available_at :: "database \<Rightarrow> int \<Rightarrow> int \<Rightarrow> int \<Rightarrow> bool" where
  "available_at db sid r n =
     (\<exists>x\<in>set (show_seats db). ss_show_id x = sid \<and> ss_row_index x = r
         \<and> ss_seat_number x = n \<and> ss_status x = ''available'')"

definition free_run :: "database \<Rightarrow> int \<Rightarrow> nat \<Rightarrow> int \<Rightarrow> int \<Rightarrow> bool" where
  "free_run db sid k r a = list_all (\<lambda>j. available_at db sid r (a + int j)) [0..<k]"

definition run_block :: "int \<Rightarrow> int \<Rightarrow> nat \<Rightarrow> (int \<times> int) list" where
  "run_block r a k = map (\<lambda>j. (r, a + int j)) [0..<k]"

text \<open>Auxiliary notions for the proofs about the finder.\<close>

definition run_in :: "int list \<Rightarrow> nat \<Rightarrow> int \<Rightarrow> bool" where
  "run_in l k a = (\<forall>j<k. a + int j \<in> set l)"

definition row_list :: "ShowSeat list \<Rightarrow> int \<Rightarrow> int list" where
  "row_list S r =
     map ss_seat_number (filter (\<lambda>x. ss_status x = ''available'' \<and> ss_row_index x = r) S)"

section \<open>A concrete inventory\<close>

text \<open>One show with the single row 1 of seats 1 to 10, seats 3 and 7 booked.\<close>

definition row1_seat :: "int \<Rightarrow> ShowSeat" where
  "row1_seat n =
     (if n = 3 \<or> n = 7
      then \<lparr>ss_show_id = 1, ss_row_index = 1, ss_seat_number = n,
            ss_status = ''booked'', ss_booking_id = Some 1\<rparr>
      else \<lparr>ss_show_id = 1, ss_row_index = 1, ss_seat_number = n,
            ss_status = ''available'', ss_booking_id = None\<rparr>)"

definition scenario_db :: database where
  "scenario_db =
     \<lparr>movies = [\<lparr>movie_id = 1, movie_title = ''M'', movie_duration_minutes = 90\<rparr>],
      theaters = [\<lparr>theater_id = 1, theater_name = ''T'', theater_location = None\<rparr>],
      halls = [\<lparr>hall_id = 1, hall_theater_id = 1, hall_name = ''H''\<rparr>],
      seats = map (\<lambda>n. \<lparr>seat_hall_id = 1, seat_row_index = 1, seat_number = n,
                         seat_is_aisle = False\<rparr>) [1, 2, 3, 4, 5, 6, 7, 8, 9, 10],
      shows_tbl = [\<lparr>show_id = 1, show_movie_id = 1, show_hall_id = 1, show_start_time = 0\<rparr>],
      show_seats = map row1_seat [1, 2, 3, 4, 5, 6, 7, 8, 9, 10],
      bookings = [\<lparr>booking_id = 1, booking_show_id = 1, booking_group_name = None\<rparr>],
      movies_id_seq = 1, theaters_id_seq = 1, halls_id_seq = 1, shows_id_seq = 1,
      bookings_id_seq = 1\<rparr>"

definition scenario :: session where
  "scenario = \<lparr>store = scenario_db, lock_log = []\<rparr>"

section \<open>States reached by requests\<close>

text \<open>
  One movie, one theater, one hall with the single row 1 of 6 seats, and show 1 in it,
  every seat available.
\<close>

definition demo_requests :: "request list" where
  "demo_requests =
     [CreateMovie \<lparr>mi_title = ''M'', mi_duration_minutes = 90\<rparr>,
      CreateTheater \<lparr>ti_name = ''T'', ti_location = None\<rparr>,
      CreateHall 1 \<lparr>hc_name = ''H'', hc_rows =
        [\<lparr>hr_row_index = 1, hr_seat_count = 6, hr_aisle_seats = None\<rparr>]\<rparr>,
      CreateShow \<lparr>sc_movie_id = 1, sc_hall_id = 1, sc_start_time = 0\<rparr>]"

definition demo :: session where
  "demo = run demo_requests"

definition book :: "int \<Rightarrow> BookingRequest" where
  "book k = \<lparr>br_show_id = 1, br_group_name = None, br_seats_requested = k\<rparr>"

text \<open>
  The same with a second hall that has no row, and show 2 in it one hour later: show 2
  has no seat at all.
\<close>

definition demo_two_shows :: session where
  "demo_two_shows = run (demo_requests
     @ [CreateHall 1 \<lparr>hc_name = ''E'', hc_rows = []\<rparr>,
        CreateShow \<lparr>sc_movie_id = 1, sc_hall_id = 2, sc_start_time = timedelta_minutes 60\<rparr>])"

definition demo_show :: "int \<Rightarrow> int \<Rightarrow> int \<Rightarrow> Show" where
  "demo_show i h t = \<lparr>show_id = i, show_movie_id = 1, show_hall_id = h, show_start_time = t\<rparr>"

section \<open>Notions for the claims\<close>

text \<open>The show has a seat whose status is \<^verbatim>\<open>available\<close>.\<close>

definition has_available :: "database \<Rightarrow> int \<Rightarrow> bool" where
  "has_available db sid =
     list_ex (\<lambda>x. ss_show_id x = sid \<and> ss_status x = ''available'') (show_seats db)"

text \<open>
  A show starts within the window of \<open>w\<close> minutes around the target show; the finder
  returns a block for a show that is not empty; and the suggestion record built for a show.
\<close>

definition in_window :: "Show \<Rightarrow> int \<Rightarrow> Show \<Rightarrow> bool" where
  "in_window target_show w c =
     (\<bar>show_start_time c - show_start_time target_show\<bar> \<le> timedelta_minutes w)"

definition finds_seats :: "session \<Rightarrow> int \<Rightarrow> Show \<Rightarrow> bool" where
  "finds_seats s g c =
     (case fst (find_contiguous_in_show s (show_id c) g) of
        None \<Rightarrow> False
      | Some block \<Rightarrow> block \<noteq> [])"

definition suggestion_for :: "session \<Rightarrow> int \<Rightarrow> Show \<Rightarrow> suggestion" where
  "suggestion_for s g c =
     \<lparr>sg_show_id = show_id c, sg_start_time = show_start_time c,
      sg_seats = the (fst (find_contiguous_in_show s (show_id c) g))\<rparr>"

section \<open>Invariants of the store\<close>

text \<open>
  The constraints that \<^verbatim>\<open>model.py\<close> declares and the database enforces, as far as the
  proofs use them: the two unique constraints and the foreign keys \<^verbatim>\<open>seats.hall_id\<close>
  and \<^verbatim>\<open>show_seats.show_id\<close>.
\<close>

definition db_constraints :: "database \<Rightarrow> bool" where
  "db_constraints db =
     (uq_hall_row_seat (seats db) \<and> uq_show_row_seat (show_seats db)
      \<and> list_all (\<lambda>x. seat_hall_id x \<in> set (map hall_id (halls db))) (seats db)
      \<and> list_all (\<lambda>x. ss_show_id x \<in> set (map show_id (shows_tbl db))) (show_seats db))"

text \<open>Every key of a hall and of a show has been issued by the sequence of its table.\<close>

definition keys_issued :: "database \<Rightarrow> bool" where
  "keys_issued db =
     (list_all (\<lambda>h. hall_id h \<le> halls_id_seq db) (halls db)
      \<and> list_all (\<lambda>x. show_id x \<le> shows_id_seq db) (shows_tbl db))"

text \<open>There is no booking, and every seat record is available and references no booking.\<close>

definition no_bookings :: "database \<Rightarrow> bool" where
  "no_bookings db =
     (bookings db = []
      \<and> list_all (\<lambda>x. ss_status x = ''available'' \<and> ss_booking_id x = None) (show_seats db))"





text \<open>The seat record that \<open>create_show\<close> makes of a seat of the hall.\<close>

definition copy_seat :: "int \<Rightarrow> Seat \<Rightarrow> ShowSeat" where
  "copy_seat sid hs = \<lparr>ss_show_id = sid, ss_row_index = seat_row_index hs,
                        ss_seat_number = seat_number hs, ss_status = ''available'',
                        ss_booking_id = None\<rparr>"

section \<open>Rows of a hall and of a show\<close>

text \<open>
  The seat numbers of a row of a hall and of a row of a show, in table order. A row is
  full when it has at least 6 seats and their numbers are, without repetition, the
  numbers from 1 to the length of the row.
\<close>

definition hall_row_numbers :: "database \<Rightarrow> int \<Rightarrow> int \<Rightarrow> int list" where
  "hall_row_numbers db hid r =
     map seat_number (filter (\<lambda>x. seat_hall_id x = hid \<and> seat_row_index x = r) (seats db))"

definition show_row_numbers :: "database \<Rightarrow> int \<Rightarrow> int \<Rightarrow> int list" where
  "show_row_numbers db sid r =
     map ss_seat_number (filter (\<lambda>x. ss_show_id x = sid \<and> ss_row_index x = r) (show_seats db))"

definition full_row :: "int list \<Rightarrow> bool" where
  "full_row ns = (6 \<le> length ns \<and> distinct ns \<and> set ns = {1..int (length ns)})"

definition rows_full :: "database \<Rightarrow> bool" where
  "rows_full db =
     (list_all (\<lambda>x. full_row (hall_row_numbers db (seat_hall_id x) (seat_row_index x))) (seats db)
      \<and> list_all (\<lambda>x. full_row (show_row_numbers db (ss_show_id x) (ss_row_index x)))
           (show_seats db))"

text \<open>A request for a hall with one row of 8 seats and one row of 5 seats.\<close>

definition short_row_hall :: HallCreate where
  "short_row_hall =
     \<lparr>hc_name = ''S'', hc_rows =
        [\<lparr>hr_row_index = 1, hr_seat_count = 8, hr_aisle_seats = None\<rparr>,
         \<lparr>hr_row_index = 2, hr_seat_count = 5, hr_aisle_seats = Some [1]\<rparr>]\<rparr>"

text \<open>What holds of every store that requests reach.\<close>

definition store_inv :: "database \<Rightarrow> bool" where
  "store_inv db = (db_constraints db \<and> keys_issued db \<and> no_bookings db \<and> rows_full db)"

section \<open>The block finder\<close>

lemma py_slice_window:
  assumes "i + k \<le> length xs"
  shows "py_slice xs (int i) (int i + int k) = take k (drop i xs)"
proof -
  have "py_slice xs (int i) (int i + int k) = drop i (take (i + k) xs)"
    using assms by (simp add: py_slice_def Let_def min_def nat_add_distrib)
  also have "\<dots> = take k (drop i xs)"
    by (simp add: drop_take)
  finally show ?thesis .
qed

lemma strictly_consecutive_iff:
  "strictly_consecutive w \<longleftrightarrow> (\<forall>j. j + 1 < length w \<longrightarrow> w ! j + 1 = w ! (j + 1))"
  by (auto simp: strictly_consecutive_def list_all_iff)

lemma strictly_consecutive_nth:
  assumes "strictly_consecutive w" and "j < length w"
  shows "w ! j = w ! 0 + int j"
  using assms(2)
proof (induction j)
  case 0
  then show ?case by simp
next
  case (Suc j)
  have "w ! j + 1 = w ! Suc j"
    using assms(1) Suc.prems by (simp add: strictly_consecutive_iff)
  moreover have "w ! j = w ! 0 + int j"
    using Suc by simp
  ultimately show ?case by simp
qed

lemma strictly_consecutive_conv:
  "strictly_consecutive w \<longleftrightarrow> (\<forall>j<length w. w ! j = w ! 0 + int j)"
proof
  assume "strictly_consecutive w"
  then show "\<forall>j<length w. w ! j = w ! 0 + int j"
    by (simp add: strictly_consecutive_nth)
next
  assume h: "\<forall>j<length w. w ! j = w ! 0 + int j"
  show "strictly_consecutive w"
    unfolding strictly_consecutive_iff
  proof (intro allI impI)
    fix j assume "j + 1 < length w"
    then have "w ! j = w ! 0 + int j" and "w ! (j + 1) = w ! 0 + int (j + 1)"
      using h by auto
    then show "w ! j + 1 = w ! (j + 1)" by simp
  qed
qed

lemma first_window_find:
  "first_window l g is =
     map_option (\<lambda>i. py_slice l (int i) (int i + g))
       (find (\<lambda>i. strictly_consecutive (py_slice l (int i) (int i + g))) is)"
  by (induction "is") (simp_all add: Let_def)

lemma scan_rows_find:
  "scan_rows rs g =
     (case find (\<lambda>p. scan_row (snd p) g \<noteq> None) rs of
        None \<Rightarrow> None
      | Some p \<Rightarrow> Some (map (\<lambda>sn. (fst p, sn)) (the (scan_row (snd p) g))))"
  by (induction rs g rule: scan_rows.induct) (auto split: option.splits)

lemma run_positions:
  assumes "sorted l" and "distinct l" and "i < length l"
    and run: "\<forall>j<k. l ! i + int j \<in> set l" and "j < k"
  shows "i + j < length l \<and> l ! (i + j) = l ! i + int j"
  using \<open>j < k\<close>
proof (induction j)
  case 0
  then show ?case using assms(3) by simp
next
  case (Suc j)
  then have ih: "i + j < length l" "l ! (i + j) = l ! i + int j" by simp_all
  have strict: "sorted_wrt (<) l"
    using assms(1,2) by (simp add: strict_sorted_iff)
  from run Suc.prems have "l ! i + int (Suc j) \<in> set l" by blast
  then obtain m where m: "m < length l" "l ! m = l ! i + int (Suc j)"
    by (auto simp: in_set_conv_nth)
  have "i + j < m"
  proof (rule ccontr)
    assume "\<not> i + j < m"
    then have "l ! m \<le> l ! (i + j)"
      using assms(1) ih(1) by (simp add: sorted_nth_mono)
    with m(2) ih(2) show False by simp
  qed
  then have lt: "i + Suc j < length l" and "l ! (i + Suc j) \<le> l ! m"
    using m(1) assms(1) by (simp_all add: sorted_nth_mono)
  moreover have "l ! (i + j) < l ! (i + Suc j)"
    using strict lt by (simp add: sorted_wrt_nth_less)
  ultimately show ?case using m(2) ih(2) by simp
qed

lemma window_nth:
  assumes "i + k \<le> length l" and "j < k"
  shows "py_slice l (int i) (int i + int k) ! j = l ! (i + j)"
  using assms by (simp add: py_slice_window)

lemma window_length:
  assumes "i + k \<le> length l"
  shows "length (py_slice l (int i) (int i + int k)) = k"
  using assms by (simp add: py_slice_window)

lemma window_consecutive_iff:
  assumes "i + k \<le> length l"
  shows "strictly_consecutive (py_slice l (int i) (int i + int k))
         \<longleftrightarrow> (\<forall>j<k. l ! (i + j) = l ! i + int j)"
proof -
  let ?w = "py_slice l (int i) (int i + int k)"
  have len: "length ?w = k" using assms by (rule window_length)
  have nth: "\<And>j. j < k \<Longrightarrow> ?w ! j = l ! (i + j)" using assms by (rule window_nth)
  show ?thesis
  proof (cases "k = 0")
    case True
    then show ?thesis using len by (simp add: strictly_consecutive_conv)
  next
    case False
    then have "?w ! 0 = l ! i" using nth [of 0] by simp
    then show ?thesis using len nth by (simp add: strictly_consecutive_conv)
  qed
qed

lemma scan_row_range:
  "nat (int (length l) - int k + 1) = length l + 1 - k"
  by arith

lemma scan_row_find:
  "scan_row l (int k) =
     map_option (\<lambda>i. py_slice (sort l) (int i) (int i + int k))
       (find (\<lambda>i. strictly_consecutive (py_slice (sort l) (int i) (int i + int k)))
          [0..<length l + 1 - k])"
  by (simp add: scan_row_def Let_def first_window_find scan_row_range)

lemma run_in_window:
  assumes "distinct l" and "0 < k" and "run_in l k a"
  shows "\<exists>i. i + k \<le> length l \<and> sort l ! i = a
             \<and> strictly_consecutive (py_slice (sort l) (int i) (int i + int k))"
proof -
  let ?sl = "sort l"
  have sl: "sorted ?sl" "distinct ?sl" "set ?sl = set l" "length ?sl = length l"
    using assms(1) by simp_all
  from assms(2,3) have "a + int 0 \<in> set l" unfolding run_in_def by blast
  then have "a \<in> set ?sl" by simp
  then obtain i where i: "i < length ?sl" "?sl ! i = a"
    unfolding in_set_conv_nth by blast
  have pos: "\<And>j. j < k \<Longrightarrow> i + j < length ?sl \<and> ?sl ! (i + j) = ?sl ! i + int j"
    using run_positions [OF sl(1,2) i(1), of k] assms(3) i(2) sl(3)
    unfolding run_in_def by simp
  have "i + (k - 1) < length ?sl" using pos [of "k - 1"] assms(2) by simp
  then have bound: "i + k \<le> length ?sl" using assms(2) by simp
  have "strictly_consecutive (py_slice ?sl (int i) (int i + int k))"
    using pos by (simp add: window_consecutive_iff [OF bound])
  then show ?thesis using bound i(2) sl(4) by auto
qed

lemma scan_row_None:
  assumes "distinct l" and "0 < k" and "scan_row l (int k) = None"
  shows "\<not> run_in l k a"
proof
  assume "run_in l k a"
  from run_in_window [OF assms(1,2) this] obtain i where
    i: "i + k \<le> length l"
       "strictly_consecutive (py_slice (sort l) (int i) (int i + int k))" by blast
  then have "i \<in> set [0..<length l + 1 - k]" by simp
  with i(2) assms(3) show False
    by (simp add: scan_row_find find_None_iff del: set_upt) 
qed

lemma scan_row_Some:
  assumes "distinct l" and "0 < k" and "scan_row l (int k) = Some w"
  shows "\<exists>a. w = map (\<lambda>j. a + int j) [0..<k] \<and> run_in l k a
             \<and> (\<forall>a'. run_in l k a' \<longrightarrow> a \<le> a')"
proof -
  let ?sl = "sort l"
  let ?P = "\<lambda>i. strictly_consecutive (py_slice ?sl (int i) (int i + int k))"
  have sl: "sorted ?sl" "set ?sl = set l" "length ?sl = length l" by simp_all
  from assms(3) obtain i where f: "find ?P [0..<length l + 1 - k] = Some i"
    and w: "w = py_slice ?sl (int i) (int i + int k)"
    by (auto simp: scan_row_find)
  from f have i: "i < length l + 1 - k" "?P i" and least: "\<And>j. j < i \<Longrightarrow> \<not> ?P j"
    by (auto simp: find_Some_iff)
  from i(1) have bound: "i + k \<le> length ?sl" by simp
  have nth: "\<And>j. j < k \<Longrightarrow> ?sl ! (i + j) = ?sl ! i + int j"
    using i(2) by (simp add: window_consecutive_iff [OF bound])
  have "w = map (\<lambda>j. ?sl ! i + int j) [0..<k]"
    unfolding w
    by (rule nth_equalityI) (simp_all add: window_length [OF bound] window_nth [OF bound] nth)
  moreover have "run_in l k (?sl ! i)"
    unfolding run_in_def
  proof (intro allI impI)
    fix j assume "j < k"
    then have "?sl ! (i + j) \<in> set ?sl" using bound by (intro nth_mem) simp
    then show "?sl ! i + int j \<in> set l" using nth [OF \<open>j < k\<close>] by simp
  qed
  moreover have "\<forall>a'. run_in l k a' \<longrightarrow> ?sl ! i \<le> a'"
  proof (intro allI impI)
    fix a' assume "run_in l k a'"
    from run_in_window [OF assms(1,2) this] obtain i' where
      i': "i' + k \<le> length l" "?sl ! i' = a'" "?P i'" by blast
    then have "\<not> i' < i" using least by blast
    then have "?sl ! i \<le> ?sl ! i'"
      using sl(1) i'(1) assms(2) by (intro sorted_nth_mono) simp_all
    then show "?sl ! i \<le> a'" using i'(2) by simp
  qed
  ultimately show ?thesis by blast
qed

lemma group_by_row_snoc:
  "group_by_row (S @ [x]) =
     (if ss_status x = ''available''
      then rows_append (group_by_row S) (ss_row_index x) (ss_seat_number x)
      else group_by_row S)"
  by (simp add: group_by_row_def)

lemma map_of_rows_append:
  "map_of (rows_append rows r n) =
     (map_of rows)(r \<mapsto> (case map_of rows r of None \<Rightarrow> [] | Some ns \<Rightarrow> ns) @ [n])"
  by (induction rows r n rule: rows_append.induct) (auto simp: fun_eq_iff)

lemma keys_rows_append:
  "map fst (rows_append rows r n) =
     (if r \<in> fst ` set rows then map fst rows else map fst rows @ [r])"
  by (induction rows r n rule: rows_append.induct) auto

lemma row_list_snoc:
  "row_list (S @ [x]) r =
     (if ss_status x = ''available'' \<and> ss_row_index x = r
      then row_list S r @ [ss_seat_number x] else row_list S r)"
  by (simp add: row_list_def)

lemma map_of_group_by_row:
  "map_of (group_by_row S) r = (if row_list S r = [] then None else Some (row_list S r))"
proof (induction S arbitrary: r rule: rev_induct)
  case Nil
  then show ?case by (simp add: group_by_row_def row_list_def)
next
  case (snoc x S)
  show ?case
    by (simp add: group_by_row_snoc map_of_rows_append row_list_snoc snoc.IH)
qed

lemma keys_group_by_row:
  "r \<in> set (map fst (group_by_row S)) \<longleftrightarrow> row_list S r \<noteq> []"
proof -
  have "r \<in> set (map fst (group_by_row S)) \<longleftrightarrow> map_of (group_by_row S) r \<noteq> None"
    by (simp add: map_of_eq_None_iff)
  then show ?thesis by (simp add: map_of_group_by_row)
qed

lemma distinct_keys_group_by_row: "distinct (map fst (group_by_row S))"
proof (induction S rule: rev_induct)
  case Nil
  then show ?case by (simp add: group_by_row_def)
next
  case (snoc x S)
  then show ?case by (simp add: group_by_row_snoc keys_rows_append)
qed

lemma row_list_nonempty:
  "row_list S r \<noteq> [] \<Longrightarrow> \<exists>x\<in>set S. ss_row_index x = r"
  by (auto simp: row_list_def filter_empty_conv)

lemma sorted_keys_group_by_row:
  "sorted (map ss_row_index S) \<Longrightarrow> sorted (map fst (group_by_row S))"
proof (induction S rule: rev_induct)
  case Nil
  then show ?case by (simp add: group_by_row_def)
next
  case (snoc x S)
  from snoc.prems have srt: "sorted (map ss_row_index S)"
    and le: "\<And>y. y \<in> set S \<Longrightarrow> ss_row_index y \<le> ss_row_index x"
    by (auto simp: sorted_append)
  have "k \<le> ss_row_index x" if "k \<in> set (map fst (group_by_row S))" for k
  proof -
    from that have "row_list S k \<noteq> []" using keys_group_by_row by blast
    then obtain y where "y \<in> set S" "ss_row_index y = k"
      using row_list_nonempty by blast
    then show ?thesis using le by blast
  qed
  then show ?case
    using snoc.IH [OF srt]
    by (auto simp: group_by_row_snoc keys_rows_append sorted_append)
qed

lemma group_by_row_member:
  "(r, l) \<in> set (group_by_row S) \<longleftrightarrow> l = row_list S r \<and> l \<noteq> []"
proof -
  have "(r, l) \<in> set (group_by_row S) \<longleftrightarrow> map_of (group_by_row S) r = Some l"
    using distinct_keys_group_by_row by simp
  then show ?thesis by (auto simp: map_of_group_by_row)
qed

lemma sorted_rows_select:
  "sorted (map ss_row_index (select_show_seats_ordered sid db))"
proof -
  let ?key = "\<lambda>x. (ss_row_index x, ss_seat_number x)"
  let ?S = "select_show_seats_ordered sid db"
  have "sorted (map ?key ?S)"
    by (simp add: select_show_seats_ordered_def)
  then have "sorted_wrt (\<lambda>x y. ?key x \<le> ?key y) ?S"
    by (simp add: sorted_map)
  then have "sorted_wrt (\<lambda>x y. ss_row_index x \<le> ss_row_index y) ?S"
    by (rule sorted_wrt_mono_rel [rotated]) (auto simp: less_eq_prod_def)
  then show ?thesis by (simp add: sorted_map)
qed

lemma set_row_list_select:
  "set (row_list (select_show_seats_ordered sid db) r) = {n. available_at db sid r n}"
  by (auto simp: row_list_def select_show_seats_ordered_def available_at_def)

lemma distinct_row_list_select:
  assumes "uq_show_row_seat (show_seats db)"
  shows "distinct (row_list (select_show_seats_ordered sid db) r)"
proof -
  let ?P = "\<lambda>x. ss_status x = ''available'' \<and> ss_row_index x = r"
  let ?Q = "\<lambda>x. ss_show_id x = sid"
  let ?ys = "filter ?P (filter ?Q (show_seats db))"
  let ?triple = "\<lambda>x. (ss_show_id x, ss_row_index x, ss_seat_number x)"
  have "mset (row_list (select_show_seats_ordered sid db) r) = mset (map ss_seat_number ?ys)"
    by (simp add: row_list_def select_show_seats_ordered_def filter_filter_mset)
  then have eq: "distinct (row_list (select_show_seats_ordered sid db) r)
                 \<longleftrightarrow> distinct (map ss_seat_number ?ys)"
    by (rule mset_eq_imp_distinct_iff)
  have "distinct (map ?triple ?ys)"
    using assms by (simp add: uq_show_row_seat_def distinct_map_filter)
  then have "distinct ?ys" and "inj_on ?triple (set ?ys)"
    by (simp_all add: distinct_map)
  moreover have "inj_on ss_seat_number (set ?ys)"
    using \<open>inj_on ?triple (set ?ys)\<close> by (auto simp: inj_on_def)
  ultimately have "distinct (map ss_seat_number ?ys)"
    by (simp add: distinct_map)
  with eq show ?thesis by simp
qed

lemma free_run_row_list:
  "free_run db sid k r a \<longleftrightarrow> run_in (row_list (select_show_seats_ordered sid db) r) k a"
  by (auto simp: free_run_def run_in_def list_all_iff set_row_list_select)

lemma run_in_nonempty: "0 < k \<Longrightarrow> run_in l k a \<Longrightarrow> l \<noteq> []"
  unfolding run_in_def by fastforce

text \<open>
  C4. For every inventory snapshot obeying the unique constraint of \<^verbatim>\<open>show_seats\<close> and
  every group size \<open>k \<ge> 1\<close>, the finder (a function of the snapshot, hence deterministic)
  returns none exactly when no row has a free run of \<open>k\<close> seats, and otherwise returns the
  free run of \<open>k\<close> strictly consecutive seats in the lowest row that has one, and within
  that row the one with the smallest starting seat.
\<close>

theorem find_contiguous_first_run:
  assumes uq: "uq_show_row_seat (show_seats (store s))" and k: "1 \<le> k"
  shows "case fst (find_contiguous_in_show s sid k) of
           None \<Rightarrow> \<forall>r a. \<not> free_run (store s) sid (nat k) r a
         | Some block \<Rightarrow>
             \<exists>r a. block = run_block r a (nat k) \<and> free_run (store s) sid (nat k) r a
               \<and> (\<forall>r' a'. free_run (store s) sid (nat k) r' a'
                      \<longrightarrow> r < r' \<or> (r = r' \<and> a \<le> a'))"
proof -
  let ?db = "store s"
  let ?S = "select_show_seats_ordered sid ?db"
  let ?rs = "group_by_row ?S"
  let ?K = "nat k"
  let ?P = "\<lambda>p. scan_row (snd p) k \<noteq> None"
  have K: "0 < ?K" "int ?K = k" using k by simp_all
  have dist: "\<And>r. distinct (row_list ?S r)"
    using uq by (rule distinct_row_list_select)
  have member: "(r, row_list ?S r) \<in> set ?rs \<and> scan_row (row_list ?S r) k \<noteq> None"
    if "free_run ?db sid ?K r a" for r a
  proof -
    from that have run: "run_in (row_list ?S r) ?K a" by (simp add: free_run_row_list)
    then have "row_list ?S r \<noteq> []" using K(1) run_in_nonempty by blast
    then have "(r, row_list ?S r) \<in> set ?rs" by (simp add: group_by_row_member)
    moreover have "scan_row (row_list ?S r) k \<noteq> None"
      using scan_row_None [OF dist K(1), of r a] run K(2) by auto
    ultimately show ?thesis by simp
  qed
  have res: "fst (find_contiguous_in_show s sid k) = scan_rows ?rs k"
    by (simp add: find_contiguous_in_show_def execute_def group_by_row_def)
  show ?thesis
  proof (cases "find ?P ?rs")
    case None
    then have none: "\<And>p. p \<in> set ?rs \<Longrightarrow> scan_row (snd p) k = None"
      by (auto simp: find_None_iff)
    have "\<not> free_run ?db sid ?K r a" for r a
      using member [of r a] none [of "(r, row_list ?S r)"] by auto
    then show ?thesis using None by (simp add: res scan_rows_find)
  next
    case (Some p)
    then obtain i where i: "i < length ?rs" "?P (?rs ! i)" "p = ?rs ! i"
      and least: "\<And>j. j < i \<Longrightarrow> \<not> ?P (?rs ! j)"
      by (auto simp: find_Some_iff)
    obtain r l where p: "p = (r, l)" by (cases p)
    have rsi: "?rs ! i = (r, l)" using i(3) p by simp
    have "p \<in> set ?rs" using i(1,3) by simp
    then have l: "l = row_list ?S r" by (simp add: p group_by_row_member)
    have "scan_row l k \<noteq> None" using i(2) rsi by simp
    then obtain w where w: "scan_row l k = Some w" by auto
    from scan_row_Some [OF dist K(1), of r w] w l K(2)
    obtain a where a: "w = map (\<lambda>j. a + int j) [0..<?K]" "run_in l ?K a"
      "\<And>a'. run_in l ?K a' \<Longrightarrow> a \<le> a'" by auto
    have blk: "fst (find_contiguous_in_show s sid k) = Some (run_block r a ?K)"
      using Some w a(1) by (simp add: res scan_rows_find p run_block_def o_def)
    have free: "free_run ?db sid ?K r a"
      using a(2) l by (simp add: free_run_row_list)
    have first: "r < r' \<or> (r = r' \<and> a \<le> a')" if f': "free_run ?db sid ?K r' a'" for r' a'
    proof -
      from member [OF f'] obtain j where j: "j < length ?rs" "?rs ! j = (r', row_list ?S r')"
        and P': "scan_row (row_list ?S r') k \<noteq> None"
        by (auto simp: in_set_conv_nth)
      have "\<not> j < i" using least [of j] j(2) P' by auto
      then have "fst (?rs ! i) \<le> fst (?rs ! j)"
        using sorted_keys_group_by_row [OF sorted_rows_select, of sid ?db] j(1)
        by (simp add: sorted_iff_nth_mono)
      then have "r \<le> r'" using rsi j(2) by simp
      moreover have "a \<le> a'" if "r = r'"
        using a(3) [of a'] f' l that by (simp add: free_run_row_list)
      ultimately show ?thesis by auto
    qed
    show ?thesis using blk free first by auto
  qed
qed

theorem find_contiguous_first_run_witness:
  "uq_show_row_seat (show_seats (store scenario)) \<and> (1::int) \<le> 3 \<and>
   (\<exists>r a. fst (find_contiguous_in_show scenario 1 3) = Some (run_block r a 3)
      \<and> free_run (store scenario) 1 3 r a
      \<and> (\<forall>r' a'. free_run (store scenario) 1 3 r' a' \<longrightarrow> r < r' \<or> (r = r' \<and> a \<le> a')))"
proof -
  have h: "uq_show_row_seat (show_seats (store scenario))" by code_simp
  have f: "fst (find_contiguous_in_show scenario 1 3) = Some [(1, 4), (1, 5), (1, 6)]"
    by code_simp
  from find_contiguous_first_run [OF h, of 3 1] f h show ?thesis by auto
qed

section \<open>The finder on the concrete inventory\<close>

text \<open>
  C3. On the show with one row 1 of seats 1 to 10 where seats 3 and 7 are booked and the
  others available, the finder with group size 3 returns exactly the block
  (1,4), (1,5), (1,6).
\<close>

theorem find_contiguous_scenario:
  "fst (find_contiguous_in_show scenario 1 3) = Some [(1, 4), (1, 5), (1, 6)]"
  by code_simp

section \<open>Reads leave the session unchanged\<close>

lemma find_contiguous_session: "snd (find_contiguous_in_show s sid g) = s"
  by (simp add: find_contiguous_in_show_def execute_def)

lemma suggest_loop_session: "snd (suggest_loop s cs g acc) = s"
proof (induction cs arbitrary: s acc)
  case Nil
  then show ?case by simp
next
  case (Cons c cs)
  obtain r s1 where f: "find_contiguous_in_show s (show_id c) g = (r, s1)"
    by (cases "find_contiguous_in_show s (show_id c) g")
  then have "s1 = s" using find_contiguous_session [of s "show_id c" g] by simp
  then show ?case using f Cons.IH by simp
qed

lemma book_group_search_session: "snd (book_group_search s p) = s"
proof -
  have a: "snd (suggest_other_shows s t g w) = s" for t g w
    by (simp add: suggest_other_shows_def execute_def Let_def suggest_loop_session)
  show ?thesis
  proof (cases "find (\<lambda>x. show_id x = br_show_id p) (shows_tbl (store s))")
    case None
    then show ?thesis by (simp add: book_group_search_def execute_def)
  next
    case (Some sh)
    obtain r s1 where f: "find_contiguous_in_show s (br_show_id p) (br_seats_requested p) = (r, s1)"
      by (cases "find_contiguous_in_show s (br_show_id p) (br_seats_requested p)")
    then have s1: "s1 = s"
      using find_contiguous_session [of s "br_show_id p" "br_seats_requested p"] by simp
    show ?thesis
    proof (cases r)
      case None
      obtain sg s3 where g: "suggest_other_shows s sh (br_seats_requested p) 180 = (sg, s3)"
        by (cases "suggest_other_shows s sh (br_seats_requested p) 180")
      then have "s3 = s" using a [of sh "br_seats_requested p" 180] by simp
      then show ?thesis using Some f s1 None g by (simp add: book_group_search_def execute_def)
    next
      case (Some c)
      then show ?thesis using \<open>find _ _ = Some sh\<close> f s1
        by (simp add: book_group_search_def execute_def)
    qed
  qed
qed

lemma book_group_search_Inr:
  "fst (book_group_search s p) = Inr c \<longleftrightarrow>
     find (\<lambda>x. show_id x = br_show_id p) (shows_tbl (store s)) \<noteq> None
     \<and> fst (find_contiguous_in_show s (br_show_id p) (br_seats_requested p)) = Some c"
  by (auto simp: book_group_search_def execute_def find_contiguous_in_show_def
           split: option.splits prod.splits)

text \<open>
  C9. \<open>suggest_other_shows\<close>, with all its nested runs of the finder, returns the session
  it was given: every table of the store is unchanged, and the lock log is unchanged, so
  no row lock was taken.
\<close>

theorem suggest_other_shows_read_only:
  "snd (suggest_other_shows s target_show group_size time_window_minutes) = s"
  by (simp add: suggest_other_shows_def execute_def Let_def suggest_loop_session)

section \<open>What the finder returns\<close>

lemma py_slice_subset: "set (py_slice xs i j) \<subseteq> set xs"
proof -
  have "set (drop a (take b xs)) \<subseteq> set xs" for a b
    using set_drop_subset set_take_subset by fastforce
  then show ?thesis by (simp add: py_slice_def Let_def)
qed

lemma first_window_subset: "first_window l g is = Some w \<Longrightarrow> set w \<subseteq> set l"
proof (induction "is")
  case Nil
  then show ?case by simp
next
  case (Cons i "is")
  show ?case
  proof (cases "strictly_consecutive (py_slice l (int i) (int i + g))")
    case True
    then have "w = py_slice l (int i) (int i + g)" using Cons.prems by (simp add: Let_def)
    then show ?thesis by (simp add: py_slice_subset)
  next
    case False
    then show ?thesis using Cons by (simp add: Let_def)
  qed
qed

lemma scan_rows_source:
  "scan_rows rs g = Some c \<Longrightarrow> \<exists>r l w. (r, l) \<in> set rs \<and> c = map (\<lambda>sn. (r, sn)) w \<and> set w \<subseteq> set l"
proof (induction rs g rule: scan_rows.induct)
  case (1 g)
  then show ?case by simp
next
  case (2 r l rest g)
  show ?case
  proof (cases "scan_row l g")
    case None
    then show ?thesis using 2 by auto
  next
    case (Some w)
    then have "set w \<subseteq> set l"
      using first_window_subset [of "sort l" g _ w] by (simp add: scan_row_def Let_def)
    then show ?thesis using Some 2 by auto
  qed
qed

lemma find_contiguous_available:
  assumes "fst (find_contiguous_in_show s sid g) = Some c"
  shows "\<forall>(r, n)\<in>set c. available_at (store s) sid r n"
proof -
  let ?S = "select_show_seats_ordered sid (store s)"
  from assms have "scan_rows (group_by_row ?S) g = Some c"
    by (simp add: find_contiguous_in_show_def execute_def split: if_splits)
  then obtain r l w where rl: "(r, l) \<in> set (group_by_row ?S)"
    and c: "c = map (\<lambda>sn. (r, sn)) w" and w: "set w \<subseteq> set l"
    using scan_rows_source by blast
  from rl have "l = row_list ?S r" by (simp add: group_by_row_member)
  then have "set l = {n. available_at (store s) sid r n}"
    by (simp add: set_row_list_select)
  then show ?thesis using c w by auto
qed

lemma first_window_length:
  assumes "0 < k" and "first_window l (int k) [0..<length l + 1 - k] = Some w"
  shows "length w = k"
proof -
  from assms(2) obtain i where "i < length l + 1 - k" and "w = py_slice l (int i) (int i + int k)"
    by (auto simp: first_window_find find_Some_iff)
  then show ?thesis using window_length [of i k l] by simp
qed

lemma scan_rows_length:
  assumes "0 < k"
  shows "scan_rows rs (int k) = Some c \<Longrightarrow> length c = k"
proof (induction rs "int k" rule: scan_rows.induct)
  case 1
  then show ?case by simp
next
  case (2 r l rest)
  show ?case
  proof (cases "scan_row l (int k)")
    case None
    then show ?thesis using 2 by simp
  next
    case (Some w)
    then have "first_window (sort l) (int k) [0..<length (sort l) + 1 - k] = Some w"
      by (simp add: scan_row_def Let_def scan_row_range)
    then have "length w = k" using first_window_length [OF assms] by blast
    then show ?thesis using Some 2 by auto
  qed
qed

lemma find_contiguous_length:
  assumes "1 \<le> g" and "fst (find_contiguous_in_show s sid g) = Some c"
  shows "length c = nat g"
proof -
  from assms(2) have "scan_rows (group_by_row (select_show_seats_ordered sid (store s))) g = Some c"
    by (simp add: find_contiguous_in_show_def execute_def split: if_splits)
  then show ?thesis using scan_rows_length [of "nat g" _ c] assms(1) by simp
qed

section \<open>Group sizes that are not positive\<close>

lemma scan_row_nonpositive:
  assumes "g \<le> 0"
  shows "scan_row l g \<noteq> None"
proof -
  let ?sl = "sort l"
  let ?i = "nat (- g)"
  have "py_slice ?sl (int ?i) (int ?i + g) = []"
    using assms by (simp add: py_slice_def Let_def)
  then have "strictly_consecutive (py_slice ?sl (int ?i) (int ?i + g))"
    by (simp add: strictly_consecutive_def)
  moreover have "?i \<in> set [0..<nat (int (length ?sl) - g + 1)]"
    using assms by simp
  ultimately have "find (\<lambda>i. strictly_consecutive (py_slice ?sl (int i) (int i + g)))
                     [0..<nat (int (length ?sl) - g + 1)] \<noteq> None"
    unfolding find_None_iff by blast
  then show ?thesis
    by (simp add: scan_row_def Let_def first_window_find)
qed

lemma has_available_row_list:
  "has_available db sid \<longleftrightarrow> (\<exists>r. row_list (select_show_seats_ordered sid db) r \<noteq> [])"
proof -
  have "(\<exists>r. row_list (select_show_seats_ordered sid db) r \<noteq> [])
        \<longleftrightarrow> (\<exists>r. set (row_list (select_show_seats_ordered sid db) r) \<noteq> {})"
    by simp
  also have "\<dots> \<longleftrightarrow> (\<exists>r n. available_at db sid r n)"
    unfolding set_row_list_select by auto
  also have "\<dots> \<longleftrightarrow> has_available db sid"
    by (auto simp: available_at_def has_available_def list_ex_iff)
  finally show ?thesis by simp
qed

lemma find_contiguous_no_seat:
  assumes "\<not> has_available (store s) sid"
  shows "fst (find_contiguous_in_show s sid g) = None"
proof -
  let ?S = "select_show_seats_ordered sid (store s)"
  have none: "row_list ?S r = []" for r
    using assms has_available_row_list [of "store s" sid] by auto
  have "r \<notin> set (map fst (group_by_row ?S))" for r
    unfolding keys_group_by_row using none by simp
  then have "set (group_by_row ?S) = {}" by force
  then have "group_by_row ?S = []" by (simp only: set_empty)
  then show ?thesis by (simp add: find_contiguous_in_show_def execute_def)
qed

lemma find_contiguous_nonpositive:
  assumes "has_available (store s) sid" and "g \<le> 0"
  shows "fst (find_contiguous_in_show s sid g) \<noteq> None"
proof -
  let ?S = "select_show_seats_ordered sid (store s)"
  from assms(1) obtain r where r: "row_list ?S r \<noteq> []"
    using has_available_row_list by blast
  then have ne: "?S \<noteq> []" by (auto simp: row_list_def)
  have "r \<in> set (map fst (group_by_row ?S))"
    unfolding keys_group_by_row using r by simp
  then have "group_by_row ?S \<noteq> []" by auto
  then obtain q rest where "group_by_row ?S = q # rest"
    by (cases "group_by_row ?S") simp_all
  moreover obtain r' l where "q = (r', l)" by (cases q)
  moreover have "scan_row l g \<noteq> None" using assms(2) by (rule scan_row_nonpositive)
  ultimately have "scan_rows (group_by_row ?S) g \<noteq> None" by auto
  then show ?thesis using ne by (simp add: find_contiguous_in_show_def execute_def)
qed

section \<open>Suggestions\<close>

lemma suggest_loop_result:
  "fst (suggest_loop s cs g acc) = acc @ map (suggestion_for s g) (filter (finds_seats s g) cs)"
proof (induction cs arbitrary: acc)
  case Nil
  then show ?case by simp
next
  case (Cons c cs)
  obtain r where f: "find_contiguous_in_show s (show_id c) g = (r, s)"
    using find_contiguous_session [of s "show_id c" g]
    by (cases "find_contiguous_in_show s (show_id c) g") simp
  have t: "truthy r = finds_seats s g c"
    by (simp add: truthy_def finds_seats_def f)
  show ?case
  proof (cases "finds_seats s g c")
    case True
    then show ?thesis
      using Cons.IH [of "acc @ [suggestion_for s g c]"] t
      by (simp add: f suggestion_for_def)
  next
    case False
    then show ?thesis using Cons.IH [of acc] t by (simp add: f)
  qed
qed

lemma select_shows_between_window:
  "select_shows_between (show_start_time target_show - timedelta_minutes w)
     (show_start_time target_show + timedelta_minutes w) db
   = sort_key show_start_time (filter (in_window target_show w) (shows_tbl db))"
proof -
  have "(show_start_time target_show - timedelta_minutes w \<le> show_start_time c
         \<and> show_start_time c \<le> show_start_time target_show + timedelta_minutes w)
        = in_window target_show w c" for c
    unfolding in_window_def by linarith
  then show ?thesis by (simp add: select_shows_between_def)
qed

lemma finds_seats_positive:
  assumes "1 \<le> g"
  shows "finds_seats s g c \<longleftrightarrow> fst (find_contiguous_in_show s (show_id c) g) \<noteq> None"
proof (cases "fst (find_contiguous_in_show s (show_id c) g)")
  case None
  then show ?thesis by (simp add: finds_seats_def)
next
  case (Some b)
  from find_contiguous_length [OF assms Some] assms have "b \<noteq> []" by auto
  then show ?thesis using Some by (simp add: finds_seats_def)
qed

text \<open>
  C8 (amended). With the default window of 180 minutes, \<open>suggest_other_shows\<close> returns
  one record (show id, start time, seat block) for each show, of any movie, that starts
  no more than 180 minutes before or after the target show and for which the finder
  returns a non-empty block, and no other record; the records are in ascending order of
  start time. For a group size of at least 1 the finder returns a non-empty block exactly
  when it succeeds.
\<close>

theorem suggest_other_shows_result:
  "fst (suggest_other_shows s target_show g 180)
     = map (suggestion_for s g)
         (filter (finds_seats s g)
            (sort_key show_start_time (filter (in_window target_show 180) (shows_tbl (store s)))))
   \<and> sorted (map sg_start_time (fst (suggest_other_shows s target_show g 180)))
   \<and> (1 \<le> g \<longrightarrow>
        (\<forall>c. finds_seats s g c \<longleftrightarrow> fst (find_contiguous_in_show s (show_id c) g) \<noteq> None))"
proof -
  let ?cands = "sort_key show_start_time (filter (in_window target_show 180) (shows_tbl (store s)))"
  have res: "fst (suggest_other_shows s target_show g 180)
             = map (suggestion_for s g) (filter (finds_seats s g) ?cands)"
    by (simp add: suggest_other_shows_def Let_def execute_def suggest_loop_result
          select_shows_between_window)
  have "map sg_start_time (map (suggestion_for s g) (filter (finds_seats s g) ?cands))
        = map show_start_time (filter (finds_seats s g) ?cands)"
    by (simp add: suggestion_for_def o_def)
  moreover have "sorted (map show_start_time (filter (finds_seats s g) ?cands))"
    by (rule sorted_filter) simp
  ultimately have "sorted (map sg_start_time (fst (suggest_other_shows s target_show g 180)))"
    by (simp only: res)
  then show ?thesis using res finds_seats_positive by blast
qed

theorem suggest_other_shows_result_witness:
  "(1::int) \<le> 2
   \<and> fst (find_contiguous_in_show demo_two_shows 2 2) = None
   \<and> fst (suggest_other_shows demo_two_shows (demo_show 2 2 (timedelta_minutes 60)) 2 180)
       = [\<lparr>sg_show_id = 1, sg_start_time = 0, sg_seats = run_block 1 1 2\<rparr>]
   \<and> finds_seats demo_two_shows 2 (demo_show 1 1 0)
   \<and> fst (find_contiguous_in_show demo_two_shows 1 2) \<noteq> None"
proof -
  have h1: "fst (find_contiguous_in_show demo_two_shows 2 2) = None" by code_simp
  have h2: "map (suggestion_for demo_two_shows 2)
              (filter (finds_seats demo_two_shows 2)
                 (sort_key show_start_time
                    (filter (in_window (demo_show 2 2 (timedelta_minutes 60)) 180)
                       (shows_tbl (store demo_two_shows)))))
            = [\<lparr>sg_show_id = 1, sg_start_time = 0, sg_seats = run_block 1 1 2\<rparr>]"
    by code_simp
  have h3: "finds_seats demo_two_shows 2 (demo_show 1 1 0)" by code_simp
  have h4: "show_id (demo_show 1 1 0) = 1" by (simp add: demo_show_def)
  note t = suggest_other_shows_result [of demo_two_shows "demo_show 2 2 (timedelta_minutes 60)" 2]
  from t h3 h4 have "fst (find_contiguous_in_show demo_two_shows 1 2) \<noteq> None" by auto
  with t h1 h2 h3 show ?thesis by simp
qed

theorem empty_block_not_suggested_counterexample:
  "fst (find_contiguous_in_show demo_two_shows 2 0) = None
   \<and> demo_show 1 1 0 \<in> set (shows_tbl (store demo_two_shows))
   \<and> in_window (demo_show 2 2 (timedelta_minutes 60)) 180 (demo_show 1 1 0)
   \<and> fst (find_contiguous_in_show demo_two_shows 1 0) = Some []
   \<and> fst (suggest_other_shows demo_two_shows (demo_show 2 2 (timedelta_minutes 60)) 0 180) = []"
  by code_simp


section \<open>The booking transaction is never entered\<close>

lemma transaction_begun: "transaction True body s = (Inl InvalidRequestError, s)"
  by (simp add: transaction_def)

lemma book_group_cases:
  "book_group s p =
     (case fst (book_group_search s p) of
        Inl e \<Rightarrow> (Inl e, s)
      | Inr c \<Rightarrow> (Inl InvalidRequestError, s))"
proof -
  obtain r where a: "book_group_search s p = (r, s)"
    using book_group_search_session [of s p] by (cases "book_group_search s p") simp
  then show ?thesis
    by (simp add: book_group_def book_group_commit_def transaction_begun split: sum.splits)
qed

lemma book_group_session: "snd (book_group s p) = s"
  by (simp add: book_group_cases split: sum.splits)

text \<open>
  C5 (the code departs from the claim). The commit phase of \<open>book_group\<close> never takes the
  row lock and never re-reads the candidate seats: for every request, candidate block and
  session it raises \<open>InvalidRequestError\<close> at \<^verbatim>\<open>db.begin()\<close> and leaves the session as it
  was. So a stale candidate (seats 3 and 4 of the concrete inventory, seat 3 booked) is
  not answered with the 409 conflict, and a candidate whose seats are all present and
  available (seats 1 to 3 of the show with six available seats) is not committed.
\<close>

theorem book_group_commit_raises:
  "book_group_commit p c s = (Inl InvalidRequestError, s)
   \<and> list_ex (\<lambda>x. ss_status x \<noteq> ''available'')
         (filter (in_block 1 [(1, 3), (1, 4)]) (show_seats (store scenario)))
   \<and> book_group_commit (book 2) [(1, 3), (1, 4)] scenario = (Inl InvalidRequestError, scenario)
   \<and> fst (book_group_search demo (book 3)) = Inr (run_block 1 1 3)
   \<and> list_all (\<lambda>x. ss_status x = ''available'')
         (filter (in_block 1 (run_block 1 1 3)) (show_seats (store demo)))
   \<and> length (filter (in_block 1 (run_block 1 1 3)) (show_seats (store demo))) = 3
   \<and> book_group demo (book 3) = (Inl InvalidRequestError, demo)"
proof -
  have c: "book_group_commit p c s = (Inl InvalidRequestError, s)" for p c and s :: session
    by (simp add: book_group_commit_def transaction_begun)
  have "list_ex (\<lambda>x. ss_status x \<noteq> ''available'')
          (filter (in_block 1 [(1, 3), (1, 4)]) (show_seats (store scenario)))"
    by code_simp
  moreover have s: "fst (book_group_search demo (book 3)) = Inr (run_block 1 1 3)"
    by code_simp
  moreover have "list_all (\<lambda>x. ss_status x = ''available'')
          (filter (in_block 1 (run_block 1 1 3)) (show_seats (store demo)))"
    by code_simp
  moreover have "length (filter (in_block 1 (run_block 1 1 3)) (show_seats (store demo))) = 3"
    by code_simp
  moreover have "book_group demo (book 3) = (Inl InvalidRequestError, demo)"
    using s by (simp add: book_group_cases)
  ultimately show ?thesis using c by simp
qed

text \<open>
  C2 (the code departs from the claim). No call of \<open>book_group\<close> succeeds: whatever the
  session and the request, the result is an error and the session, with every booking
  and every seat record, is as it was. On the show with six available seats in one row a
  request for 3 seats finds the block of seats 1 to 3 and then fails with
  \<open>InvalidRequestError\<close>; no booking is stored to own the block.
\<close>

theorem book_group_never_succeeds:
  "fst (book_group s p) \<noteq> Inr resp
   \<and> snd (book_group s p) = s
   \<and> fst (book_group_search demo (book 3)) = Inr (run_block 1 1 3)
   \<and> fst (book_group demo (book 3)) = Inl InvalidRequestError
   \<and> bookings (store (snd (book_group demo (book 3)))) = []"
proof -
  have "fst (book_group s p) \<noteq> Inr resp"
    by (simp add: book_group_cases split: sum.splits)
  moreover have "fst (book_group_search demo (book 3)) = Inr (run_block 1 1 3)"
    by code_simp
  moreover have "fst (book_group demo (book 3)) = Inl InvalidRequestError"
    by code_simp
  moreover have "bookings (store (snd (book_group demo (book 3)))) = []"
    by code_simp
  ultimately show ?thesis by (simp add: book_group_session)
qed

text \<open>
  C6 (amended). \<open>book_group\<close> does not check the group size. A request with a group size
  \<open>\<le> 0\<close> fails with 404 when the show does not exist and with the 409 "cannot find
  contiguous seats" exception when the show has no available seat; when the show has an
  available seat the finder returns a block and the search phase ends with it. In every
  case the session is as it was: no booking is stored.
\<close>

theorem book_group_nonpositive_size:
  assumes "br_seats_requested p \<le> 0"
  shows "(case find (\<lambda>x. show_id x = br_show_id p) (shows_tbl (store s)) of
            None \<Rightarrow> fst (book_group s p) = Inl (HTTPException 404 (Msg ''show not found''))
          | Some sh \<Rightarrow>
              if has_available (store s) (br_show_id p)
              then \<exists>block. fst (find_contiguous_in_show s (br_show_id p) (br_seats_requested p))
                            = Some block
                     \<and> fst (book_group_search s p) = Inr block
              else \<exists>suggestions. fst (book_group s p) =
                     Inl (HTTPException 409
                       (MsgSuggestions ''cannot find contiguous seats in requested show'' suggestions)))
         \<and> bookings (store (snd (book_group s p))) = bookings (store s)"
proof -
  have "case find (\<lambda>x. show_id x = br_show_id p) (shows_tbl (store s)) of
            None \<Rightarrow> fst (book_group s p) = Inl (HTTPException 404 (Msg ''show not found''))
          | Some sh \<Rightarrow>
              if has_available (store s) (br_show_id p)
              then \<exists>block. fst (find_contiguous_in_show s (br_show_id p) (br_seats_requested p))
                            = Some block
                     \<and> fst (book_group_search s p) = Inr block
              else \<exists>suggestions. fst (book_group s p) =
                     Inl (HTTPException 409
                       (MsgSuggestions ''cannot find contiguous seats in requested show'' suggestions))"
  proof (cases "find (\<lambda>x. show_id x = br_show_id p) (shows_tbl (store s))")
    case None
    then have "fst (book_group_search s p) = Inl (HTTPException 404 (Msg ''show not found''))"
      by (simp add: book_group_search_def execute_def)
    then show ?thesis using None by (simp add: book_group_cases)
  next
    case (Some sh)
    show ?thesis
    proof (cases "has_available (store s) (br_show_id p)")
      case True
      then obtain c where
        f: "fst (find_contiguous_in_show s (br_show_id p) (br_seats_requested p)) = Some c"
        using find_contiguous_nonpositive [OF _ assms] by blast
      then have "fst (book_group_search s p) = Inr c"
        using Some by (simp add: book_group_search_Inr)
      then show ?thesis using Some True f by simp
    next
      case False
      then have "fst (find_contiguous_in_show s (br_show_id p) (br_seats_requested p)) = None"
        by (rule find_contiguous_no_seat)
      then have "\<exists>suggestions. fst (book_group_search s p) =
                   Inl (HTTPException 409
                     (MsgSuggestions ''cannot find contiguous seats in requested show'' suggestions))"
        using Some
        by (auto simp: book_group_search_def execute_def find_contiguous_in_show_def
                 split: prod.splits if_splits)
      then show ?thesis using Some False by (auto simp: book_group_cases)
    qed
  qed
  then show ?thesis by (simp add: book_group_session)
qed

theorem book_group_nonpositive_size_witness:
  "br_seats_requested (book (- 1)) \<le> 0
   \<and> has_available (store demo) 1
   \<and> fst (find_contiguous_in_show demo 1 (- 1)) = Some (run_block 1 1 5)
   \<and> fst (book_group_search demo (book (- 1))) = Inr (run_block 1 1 5)
   \<and> bookings (store (snd (book_group demo (book (- 1))))) = bookings (store demo)"
proof -
  have h1: "br_seats_requested (book (- 1)) \<le> 0" by (simp add: book_def)
  have h2: "find (\<lambda>x. show_id x = br_show_id (book (- 1))) (shows_tbl (store demo)) \<noteq> None"
    by code_simp
  have h3: "has_available (store demo) 1" by code_simp
  have h4: "fst (find_contiguous_in_show demo 1 (- 1)) = Some (run_block 1 1 5)" by code_simp
  have h5: "br_show_id (book (- 1)) = 1" "br_seats_requested (book (- 1)) = - 1"
    by (simp_all add: book_def)
  from book_group_nonpositive_size [OF h1, of demo] h2 h3 h4 h5 h1 show ?thesis by auto
qed

theorem nonpositive_size_counterexample:
  "br_seats_requested (book (- 1)) \<le> 0
   \<and> fst (find_contiguous_in_show demo 1 (- 1)) = Some (run_block 1 1 5)
   \<and> fst (book_group_search demo (book (- 1))) = Inr (run_block 1 1 5)
   \<and> fst (book_group demo (book (- 1))) = Inl InvalidRequestError
   \<and> fst (book_group demo_two_shows \<lparr>br_show_id = 2, br_group_name = None, br_seats_requested = 0\<rparr>)
       = Inl (HTTPException 409
           (MsgSuggestions ''cannot find contiguous seats in requested show'' []))"
  by code_simp

section \<open>What the catalog requests store\<close>

lemma db_constraints_alt:
  "db_constraints db \<longleftrightarrow>
     uq_hall_row_seat (seats db) \<and> uq_show_row_seat (show_seats db)
     \<and> (\<forall>x\<in>set (seats db). seat_hall_id x \<in> hall_id ` set (halls db))
     \<and> (\<forall>x\<in>set (show_seats db). ss_show_id x \<in> show_id ` set (shows_tbl db))"
  by (auto simp: db_constraints_def list_all_iff)

lemma keys_issued_alt:
  "keys_issued db \<longleftrightarrow>
     (\<forall>h\<in>set (halls db). hall_id h \<le> halls_id_seq db)
     \<and> (\<forall>x\<in>set (shows_tbl db). show_id x \<le> shows_id_seq db)"
  by (simp add: keys_issued_def list_all_iff)

lemma no_bookings_alt:
  "no_bookings db \<longleftrightarrow>
     bookings db = []
     \<and> (\<forall>x\<in>set (show_seats db). ss_status x = ''available'' \<and> ss_booking_id x = None)"
  by (simp add: no_bookings_def list_all_iff)

lemma seat_layout_hall:
  "seat_layout hid rs = Inr new \<Longrightarrow> x \<in> set new \<Longrightarrow> seat_hall_id x = hid"
proof (induction rs arbitrary: new)
  case Nil
  then show ?case by simp
next
  case (Cons r rs)
  then show ?case
    by (auto simp: row_seats_def split: if_splits sum.splits)
qed

lemma create_hall_Inr:
  assumes "create_hall s tid p = (Inr h, s')"
  shows "\<exists>new. seat_layout (hall_id h) (hc_rows p) = Inr new
               \<and> uq_hall_row_seat (seats (store s) @ new)
               \<and> hall_id h = halls_id_seq (store s) + 1
               \<and> store s' = (store s)\<lparr>halls := halls (store s) @ [h],
                                         halls_id_seq := hall_id h,
                                         seats := seats (store s) @ new\<rparr>"
  using assms
  by (auto simp: create_hall_def Let_def split: option.splits sum.splits if_splits)

lemma create_hall_Inl:
  assumes "fst (create_hall s tid p) = Inl e"
  shows "store (snd (create_hall s tid p)) = store s
         \<or> store (snd (create_hall s tid p))
             = (store s)\<lparr>halls_id_seq := halls_id_seq (store s) + 1\<rparr>"
  using assms
  by (auto simp: create_hall_def Let_def rollback_def split: option.splits sum.splits if_splits)

lemma create_show_Inr:
  assumes "create_show s p = (Inr sh, s')"
  shows "show_id sh = shows_id_seq (store s) + 1
       \<and> show_hall_id sh = sc_hall_id p \<and> show_start_time sh = sc_start_time p
       \<and> store s' = (store s)\<lparr>shows_tbl := shows_tbl (store s) @ [sh],
           show_seats := show_seats (store s)
             @ map (copy_seat (show_id sh))
                 (filter (\<lambda>x. seat_hall_id x = sc_hall_id p) (seats (store s))),
           shows_id_seq := show_id sh\<rparr>"
  using assms
  by (auto simp: create_show_def Let_def copy_seat_def split: option.splits)

lemma create_show_Inl: "fst (create_show s p) = Inl e \<Longrightarrow> snd (create_show s p) = s"
  by (auto simp: create_show_def Let_def split: option.splits)

section \<open>Halls have full rows\<close>

lemma seat_layout_short_row:
  "\<exists>r\<in>set rs. hr_seat_count r < 6 \<Longrightarrow>
     seat_layout hid rs = Inl (HTTPException 400 (Msg ''each row must have at least 6 seats''))"
proof (induction rs)
  case Nil
  then show ?case by simp
next
  case (Cons r rs)
  show ?case
  proof (cases "hr_seat_count r < 6")
    case True
    then show ?thesis by simp
  next
    case False
    then have "\<exists>r\<in>set rs. hr_seat_count r < 6" using Cons.prems by auto
    then show ?thesis using Cons.IH False by simp
  qed
qed

lemma row_seats_numbers:
  "seat_number ` {x \<in> set (row_seats hid \<rho>). seat_row_index x = r}
   = (if hr_row_index \<rho> = r then {1..hr_seat_count \<rho>} else {})"
proof -
  have row: "seat_row_index x = hr_row_index \<rho>" if "x \<in> set (row_seats hid \<rho>)" for x
    using that by (auto simp: row_seats_def)
  have nums: "seat_number ` set (row_seats hid \<rho>) = {1..hr_seat_count \<rho>}"
    by (simp add: row_seats_def image_image)
  show ?thesis
  proof (cases "hr_row_index \<rho> = r")
    case True
    then have "{x \<in> set (row_seats hid \<rho>). seat_row_index x = r} = set (row_seats hid \<rho>)"
      using row by auto
    then show ?thesis using True nums by simp
  next
    case False
    then have "{x \<in> set (row_seats hid \<rho>). seat_row_index x = r} = {}"
      using row by auto
    then show ?thesis using False by simp
  qed
qed

lemma seat_layout_rows:
  assumes "seat_layout hid rs = Inr new" and "\<exists>x\<in>set new. seat_row_index x = r"
  shows "\<exists>N\<ge>6. seat_number ` {x \<in> set new. seat_row_index x = r} = {1..N}"
  using assms
proof (induction rs arbitrary: new)
  case Nil
  then show ?case by simp
next
  case (Cons \<rho> rs)
  from Cons.prems(1) obtain later where later: "seat_layout hid rs = Inr later"
    and new: "new = row_seats hid \<rho> @ later" and cnt: "6 \<le> hr_seat_count \<rho>"
    by (auto split: if_splits sum.splits)
  let ?here = "seat_number ` {x \<in> set (row_seats hid \<rho>). seat_row_index x = r}"
  let ?there = "seat_number ` {x \<in> set later. seat_row_index x = r}"
  have split: "seat_number ` {x \<in> set new. seat_row_index x = r} = ?here \<union> ?there"
    by (auto simp: new)
  show ?case
  proof (cases "\<exists>x\<in>set later. seat_row_index x = r")
    case True
    from Cons.IH [OF later True] obtain N where N: "6 \<le> N" "?there = {1..N}" by blast
    show ?thesis
    proof (cases "hr_row_index \<rho> = r")
      case True
      then have "?here \<union> ?there = {1..max (hr_seat_count \<rho>) N}"
        unfolding row_seats_numbers N(2) by auto
      then show ?thesis using split N(1) by (intro exI [of _ "max (hr_seat_count \<rho>) N"]) simp
    next
      case False
      then have "?here \<union> ?there = {1..N}"
        unfolding row_seats_numbers N(2) by simp
      then show ?thesis using split N(1) by (intro exI [of _ N]) simp
    qed
  next
    case False
    then have empty: "?there = {}" by auto
    from False Cons.prems(2) have "\<exists>x\<in>set (row_seats hid \<rho>). seat_row_index x = r"
      by (auto simp: new)
    then have "hr_row_index \<rho> = r" by (auto simp: row_seats_def)
    then have "?here \<union> ?there = {1..hr_seat_count \<rho>}"
      unfolding row_seats_numbers empty by simp
    then show ?thesis using split cnt by (intro exI [of _ "hr_seat_count \<rho>"]) simp
  qed
qed

lemma full_row_interval:
  assumes "distinct ns" and "set ns = {1..N}" and "6 \<le> N"
  shows "full_row ns"
proof -
  have "length ns = card (set ns)" using assms(1) by (simp add: distinct_card)
  then have "int (length ns) = N" using assms(2,3) by simp
  then show ?thesis using assms by (simp add: full_row_def)
qed

lemma rows_full_alt:
  "rows_full db \<longleftrightarrow>
     (\<forall>x\<in>set (seats db). full_row (hall_row_numbers db (seat_hall_id x) (seat_row_index x)))
     \<and> (\<forall>x\<in>set (show_seats db).
           full_row (show_row_numbers db (ss_show_id x) (ss_row_index x)))"
  by (simp add: rows_full_def list_all_iff)

lemma rows_full_create_hall:
  assumes con: "db_constraints (store s)" and ki: "keys_issued (store s)"
    and rf: "rows_full (store s)" and ch: "create_hall s tid p = (Inr h, s')"
  shows "rows_full (store s')"
proof -
  let ?db = "store s"
  from create_hall_Inr [OF ch] obtain new where
    lay: "seat_layout (hall_id h) (hc_rows p) = Inr new"
    and uq: "uq_hall_row_seat (seats ?db @ new)"
    and hid: "hall_id h = halls_id_seq ?db + 1"
    and s': "store s' = ?db\<lparr>halls := halls ?db @ [h], halls_id_seq := hall_id h,
                            seats := seats ?db @ new\<rparr>"
    by blast
  have new_hall: "seat_hall_id x = hall_id h" if "x \<in> set new" for x
    using seat_layout_hall [OF lay that] .
  have old_hall: "seat_hall_id x \<noteq> hall_id h" if "x \<in> set (seats ?db)" for x
  proof -
    from con that have "seat_hall_id x \<in> set (map hall_id (halls ?db))"
      by (simp add: db_constraints_alt)
    then have "seat_hall_id x \<le> halls_id_seq ?db"
      using ki by (auto simp: keys_issued_alt)
    then show ?thesis using hid by simp
  qed
  have old_rows: "hall_row_numbers (store s') H r = hall_row_numbers ?db H r"
    if "H \<noteq> hall_id h" for H r
  proof -
    have "filter (\<lambda>x. seat_hall_id x = H \<and> seat_row_index x = r) new = []"
      using that new_hall by (auto simp: filter_empty_conv)
    then show ?thesis by (simp add: hall_row_numbers_def s')
  qed
  have new_rows: "hall_row_numbers (store s') (hall_id h) r
                  = map seat_number (filter (\<lambda>x. seat_row_index x = r) new)" for r
  proof -
    have "filter (\<lambda>x. seat_hall_id x = hall_id h \<and> seat_row_index x = r) (seats ?db) = []"
      using old_hall by (auto simp: filter_empty_conv)
    moreover have "filter (\<lambda>x. seat_hall_id x = hall_id h \<and> seat_row_index x = r) new
                   = filter (\<lambda>x. seat_row_index x = r) new"
      using new_hall by (intro filter_cong) auto
    ultimately show ?thesis by (simp add: hall_row_numbers_def s')
  qed
  have full_new: "full_row (map seat_number (filter (\<lambda>x. seat_row_index x = r) new))"
    if x: "x \<in> set new" "seat_row_index x = r" for x r
  proof -
    let ?l = "filter (\<lambda>x. seat_row_index x = r) new"
    let ?triple = "\<lambda>x. (seat_hall_id x, seat_row_index x, seat_number x)"
    have "distinct (map ?triple ?l)"
      using uq by (simp add: uq_hall_row_seat_def distinct_map_filter)
    then have "distinct ?l" and "inj_on ?triple (set ?l)"
      by (simp_all add: distinct_map)
    moreover have "inj_on seat_number (set ?l)"
      using \<open>inj_on ?triple (set ?l)\<close> new_hall by (auto simp: inj_on_def)
    ultimately have d: "distinct (map seat_number ?l)" by (simp add: distinct_map)
    from seat_layout_rows [OF lay, of r] x obtain N where
      N: "6 \<le> N" "seat_number ` {x \<in> set new. seat_row_index x = r} = {1..N}" by blast
    have "set (map seat_number ?l) = {1..N}" using N(2) by simp
    with d show ?thesis using N(1) by (rule full_row_interval)
  qed
  show ?thesis
    unfolding rows_full_alt
  proof (intro conjI ballI)
    fix x assume "x \<in> set (seats (store s'))"
    then consider "x \<in> set (seats ?db)" | "x \<in> set new" by (auto simp: s')
    then show "full_row (hall_row_numbers (store s') (seat_hall_id x) (seat_row_index x))"
    proof cases
      case 1
      then show ?thesis using rf old_rows [OF old_hall [OF 1]] by (simp add: rows_full_alt)
    next
      case 2
      then show ?thesis using full_new [OF 2] new_hall [OF 2] by (simp add: new_rows)
    qed
  next
    fix x assume "x \<in> set (show_seats (store s'))"
    then show "full_row (show_row_numbers (store s') (ss_show_id x) (ss_row_index x))"
      using rf by (simp add: rows_full_alt s' show_row_numbers_def)
  qed
qed

lemma rows_full_create_show:
  assumes con: "db_constraints (store s)" and ki: "keys_issued (store s)"
    and rf: "rows_full (store s)" and cs: "create_show s p = (Inr sh, s')"
  shows "rows_full (store s')"
proof -
  let ?db = "store s"
  let ?hs = "filter (\<lambda>x. seat_hall_id x = sc_hall_id p) (seats ?db)"
  from create_show_Inr [OF cs] have
    sid: "show_id sh = shows_id_seq ?db + 1"
    and s': "store s' = ?db\<lparr>shows_tbl := shows_tbl ?db @ [sh],
               show_seats := show_seats ?db @ map (copy_seat (show_id sh)) ?hs,
               shows_id_seq := show_id sh\<rparr>"
    by simp_all
  have fresh: "ss_show_id x \<noteq> show_id sh" if "x \<in> set (show_seats ?db)" for x
  proof -
    from con that have "ss_show_id x \<in> set (map show_id (shows_tbl ?db))"
      by (simp add: db_constraints_alt)
    then have "ss_show_id x \<le> shows_id_seq ?db"
      using ki by (auto simp: keys_issued_alt)
    then show ?thesis using sid by simp
  qed
  have old_rows: "show_row_numbers (store s') S r = show_row_numbers ?db S r"
    if "S \<noteq> show_id sh" for S r
    using that by (simp add: show_row_numbers_def s' filter_map o_def copy_seat_def)
  have new_rows: "show_row_numbers (store s') (show_id sh) r
                  = hall_row_numbers ?db (sc_hall_id p) r" for r
  proof -
    have "filter (\<lambda>x. ss_show_id x = show_id sh \<and> ss_row_index x = r) (show_seats ?db) = []"
      using fresh by (auto simp: filter_empty_conv)
    then show ?thesis
      by (simp add: show_row_numbers_def hall_row_numbers_def s' filter_map o_def copy_seat_def
            conj_commute)
  qed
  show ?thesis
    unfolding rows_full_alt
  proof (intro conjI ballI)
    fix x assume "x \<in> set (seats (store s'))"
    then show "full_row (hall_row_numbers (store s') (seat_hall_id x) (seat_row_index x))"
      using rf by (simp add: rows_full_alt s' hall_row_numbers_def)
  next
    fix x assume "x \<in> set (show_seats (store s'))"
    then consider "x \<in> set (show_seats ?db)"
      | z where "z \<in> set (seats ?db)" "seat_hall_id z = sc_hall_id p" "x = copy_seat (show_id sh) z"
      by (auto simp: s')
    then show "full_row (show_row_numbers (store s') (ss_show_id x) (ss_row_index x))"
    proof cases
      case 1
      then show ?thesis using rf old_rows [OF fresh [OF 1]] by (simp add: rows_full_alt)
    next
      case 2
      then have "full_row (hall_row_numbers ?db (sc_hall_id p) (seat_row_index z))"
        using rf by (auto simp: rows_full_alt)
      then show ?thesis using 2(3) by (simp add: new_rows copy_seat_def)
    qed
  qed
qed

section \<open>Every reachable store\<close>

lemma db_constraints_create_show:
  assumes con: "db_constraints (store s)" and ki: "keys_issued (store s)"
    and cs: "create_show s p = (Inr sh, s')"
  shows "db_constraints (store s')"
proof -
  let ?db = "store s"
  let ?hs = "filter (\<lambda>x. seat_hall_id x = sc_hall_id p) (seats ?db)"
  let ?new = "map (copy_seat (show_id sh)) ?hs"
  let ?triple = "\<lambda>x. (ss_show_id x, ss_row_index x, ss_seat_number x)"
  from create_show_Inr [OF cs] have
    sid: "show_id sh = shows_id_seq ?db + 1"
    and s': "store s' = ?db\<lparr>shows_tbl := shows_tbl ?db @ [sh], show_seats := show_seats ?db @ ?new,
                            shows_id_seq := show_id sh\<rparr>"
    by simp_all
  have fresh: "ss_show_id x \<noteq> show_id sh" if "x \<in> set (show_seats ?db)" for x
  proof -
    from con that have "ss_show_id x \<in> set (map show_id (shows_tbl ?db))"
      by (simp add: db_constraints_alt)
    then have "ss_show_id x \<le> shows_id_seq ?db"
      using ki by (auto simp: keys_issued_alt)
    then show ?thesis using sid by simp
  qed
  have "distinct (map (\<lambda>x. (seat_hall_id x, seat_row_index x, seat_number x)) ?hs)"
    using con by (simp add: db_constraints_alt uq_hall_row_seat_def distinct_map_filter)
  then have "distinct ?hs"
    and inj: "inj_on (\<lambda>x. (seat_hall_id x, seat_row_index x, seat_number x)) (set ?hs)"
    by (simp_all add: distinct_map)
  have "inj_on (\<lambda>x. (show_id sh, seat_row_index x, seat_number x)) (set ?hs)"
    using inj by (auto simp: inj_on_def)
  then have "distinct (map ?triple ?new)"
    using \<open>distinct ?hs\<close> by (simp add: distinct_map o_def copy_seat_def)
  moreover have "set (map ?triple (show_seats ?db)) \<inter> set (map ?triple ?new) = {}"
    using fresh by (auto simp: copy_seat_def)
  moreover have "distinct (map ?triple (show_seats ?db))"
    using con by (simp add: db_constraints_alt uq_show_row_seat_def)
  ultimately have "uq_show_row_seat (show_seats ?db @ ?new)"
    by (simp add: uq_show_row_seat_def)
  then show ?thesis
    using con by (auto simp: db_constraints_alt s' copy_seat_def)
qed

lemma store_inv_create_show:
  assumes "store_inv (store s)"
  shows "store_inv (store (snd (create_show s p)))"
proof (cases "fst (create_show s p)")
  case (Inl e)
  then show ?thesis using assms by (simp add: create_show_Inl)
next
  case (Inr sh)
  then have cs: "create_show s p = (Inr sh, snd (create_show s p))"
    by (simp add: prod_eq_iff)
  let ?s' = "snd (create_show s p)"
  from assms have con: "db_constraints (store s)" and ki: "keys_issued (store s)"
    and nb: "no_bookings (store s)" and rf: "rows_full (store s)"
    by (simp_all add: store_inv_def)
  note s' = create_show_Inr [OF cs]
  have "db_constraints (store ?s')" using con ki cs by (rule db_constraints_create_show)
  moreover have "keys_issued (store ?s')"
    using ki s' by (auto simp: keys_issued_alt)
  moreover have "no_bookings (store ?s')"
    using nb s' by (auto simp: no_bookings_alt copy_seat_def)
  moreover have "rows_full (store ?s')" using con ki rf cs by (rule rows_full_create_show)
  ultimately show ?thesis by (simp add: store_inv_def)
qed

lemma store_inv_create_hall:
  assumes "store_inv (store s)"
  shows "store_inv (store (snd (create_hall s tid p)))"
proof (cases "fst (create_hall s tid p)")
  case (Inl e)
  from assms have "store_inv ((store s)\<lparr>halls_id_seq := halls_id_seq (store s) + 1\<rparr>)"
    by (auto simp: store_inv_def db_constraints_alt keys_issued_alt no_bookings_alt rows_full_alt
          hall_row_numbers_def show_row_numbers_def)
  then show ?thesis using create_hall_Inl [OF Inl] assms by auto
next
  case (Inr h)
  then have ch: "create_hall s tid p = (Inr h, snd (create_hall s tid p))"
    by (simp add: prod_eq_iff)
  let ?s' = "snd (create_hall s tid p)"
  from assms have con: "db_constraints (store s)" and ki: "keys_issued (store s)"
    and nb: "no_bookings (store s)" and rf: "rows_full (store s)"
    by (simp_all add: store_inv_def)
  from create_hall_Inr [OF ch] obtain new where
    lay: "seat_layout (hall_id h) (hc_rows p) = Inr new"
    and uq: "uq_hall_row_seat (seats (store s) @ new)"
    and hid: "hall_id h = halls_id_seq (store s) + 1"
    and s': "store ?s' = (store s)\<lparr>halls := halls (store s) @ [h], halls_id_seq := hall_id h,
                                     seats := seats (store s) @ new\<rparr>"
    by blast
  have "seat_hall_id x = hall_id h" if "x \<in> set new" for x
    using seat_layout_hall [OF lay that] .
  then have "db_constraints (store ?s')"
    using con uq by (auto simp: db_constraints_alt s')
  moreover have "keys_issued (store ?s')"
    using ki hid by (auto simp: keys_issued_alt s')
  moreover have "no_bookings (store ?s')"
    using nb by (simp add: no_bookings_alt s')
  moreover have "rows_full (store ?s')" using con ki rf ch by (rule rows_full_create_hall)
  ultimately show ?thesis by (simp add: store_inv_def)
qed

lemma serve_preserves:
  assumes movie: "\<And>db m n. P db \<Longrightarrow> P (db\<lparr>movies := movies db @ [m], movies_id_seq := n\<rparr>)"
    and theater: "\<And>db t n. P db \<Longrightarrow> P (db\<lparr>theaters := theaters db @ [t], theaters_id_seq := n\<rparr>)"
    and hall: "\<And>s tid p. P (store s) \<Longrightarrow> P (store (snd (create_hall s tid p)))"
    and "show": "\<And>s p. P (store s) \<Longrightarrow> P (store (snd (create_show s p)))"
    and start: "P (store s)"
  shows "P (store (serve r s))"
proof (cases r)
  case (CreateMovie p)
  then show ?thesis using start by (simp add: create_movie_def Let_def movie)
next
  case (CreateTheater p)
  then show ?thesis using start by (simp add: create_theater_def Let_def theater)
next
  case (CreateHall tid p)
  then show ?thesis using start hall [OF start, of tid p] by (simp add: post_hall_def)
next
  case (CreateShow p)
  then show ?thesis using "show" [OF start, of p] by simp
next
  case (BookGroup p)
  then show ?thesis using start by (simp add: book_group_session)
qed

lemma fold_serve_preserves:
  assumes movie: "\<And>db m n. P db \<Longrightarrow> P (db\<lparr>movies := movies db @ [m], movies_id_seq := n\<rparr>)"
    and theater: "\<And>db t n. P db \<Longrightarrow> P (db\<lparr>theaters := theaters db @ [t], theaters_id_seq := n\<rparr>)"
    and hall: "\<And>s tid p. P (store s) \<Longrightarrow> P (store (snd (create_hall s tid p)))"
    and "show": "\<And>s p. P (store s) \<Longrightarrow> P (store (snd (create_show s p)))"
  shows "P (store (s::session)) \<Longrightarrow> P (store (fold serve reqs s))"
proof (induction reqs arbitrary: s)
  case Nil
  then show ?case by simp
next
  case (Cons r reqs)
  have "P (store (serve r s))"
    using movie theater hall "show" Cons.prems by (rule serve_preserves [where P = P])
  then show ?case using Cons.IH by simp
qed

lemma store_inv_reachable: "store_inv (store (run reqs))"
  unfolding run_def
proof (rule fold_serve_preserves [where P = store_inv])
  show "store_inv (store initial)"
    by (simp add: initial_def empty_db_def store_inv_def db_constraints_alt keys_issued_alt
          no_bookings_alt rows_full_alt uq_hall_row_seat_def uq_show_row_seat_def)
next
  fix db :: database and m n assume "store_inv db"
  then show "store_inv (db\<lparr>movies := movies db @ [m], movies_id_seq := n\<rparr>)"
    by (simp add: store_inv_def db_constraints_alt keys_issued_alt no_bookings_alt
          rows_full_alt hall_row_numbers_def show_row_numbers_def)
next
  fix db :: database and t n assume "store_inv db"
  then show "store_inv (db\<lparr>theaters := theaters db @ [t], theaters_id_seq := n\<rparr>)"
    by (simp add: store_inv_def db_constraints_alt keys_issued_alt no_bookings_alt
          rows_full_alt hall_row_numbers_def show_row_numbers_def)
next
  fix s :: session and tid p assume "store_inv (store s)"
  then show "store_inv (store (snd (create_hall s tid p)))" by (rule store_inv_create_hall)
next
  fix s :: session and p assume "store_inv (store s)"
  then show "store_inv (store (snd (create_show s p)))" by (rule store_inv_create_show)
qed





text \<open>
  C7 (the code departs from the claim). On the show with six available seats a request
  for 3 seats finds seats 1 to 3 and then fails with \<open>InvalidRequestError\<close>: it returns
  no booking id and stores no booking. After every sequence of requests \<open>get_booking\<close>
  answers 404 for every booking id: there is never a booking to read back.
\<close>

theorem get_booking_after_book_group_fails:
  "fst (book_group_search demo (book 3)) = Inr (run_block 1 1 3)
   \<and> fst (book_group demo (book 3)) = Inl InvalidRequestError
   \<and> fst (get_booking (snd (book_group demo (book 3))) 1)
       = Inl (HTTPException 404 (Msg ''booking not found''))
   \<and> fst (get_booking (run reqs) bid) = Inl (HTTPException 404 (Msg ''booking not found''))"
proof -
  have "bookings (store (run reqs)) = []"
    using store_inv_reachable [of reqs] by (simp add: store_inv_def no_bookings_alt)
  then have "fst (get_booking (run reqs) bid) = Inl (HTTPException 404 (Msg ''booking not found''))"
    by (simp add: get_booking_def execute_def)
  moreover have "fst (book_group_search demo (book 3)) = Inr (run_block 1 1 3)" by code_simp
  moreover have "fst (book_group demo (book 3)) = Inl InvalidRequestError" by code_simp
  moreover have "fst (get_booking (snd (book_group demo (book 3))) 1)
                 = Inl (HTTPException 404 (Msg ''booking not found''))" by code_simp
  ultimately show ?thesis by simp
qed

text \<open>
  C10. A request to create a hall that contains a row with fewer than 6 seats is
  rejected, by the handler \<open>create_hall\<close> (404 when the theater is missing, else 400) and
  by the validated endpoint (422); the handler stores no hall and no seat, and the
  endpoint leaves the session as it was. Hence after every sequence of requests from the
  empty database every row of every hall, and every row of the seat inventory of every
  show, has at least 6 seats, numbered without gap or repetition from 1.
\<close>

theorem create_hall_rejects_short_rows:
  "((\<exists>r\<in>set (hc_rows p). hr_seat_count r < 6) \<longrightarrow>
      fst (create_hall s tid p) =
        Inl (case find (\<lambda>t. theater_id t = tid) (theaters (store s)) of
               None \<Rightarrow> HTTPException 404 (Msg ''theater not found'')
             | Some t \<Rightarrow> HTTPException 400 (Msg ''each row must have at least 6 seats''))
      \<and> halls (store (snd (create_hall s tid p))) = halls (store s)
      \<and> seats (store (snd (create_hall s tid p))) = seats (store s)
      \<and> post_hall s tid p = (Inl (HTTPException 422 (Msg ''validation error'')), s))
   \<and> rows_full (store (run reqs))"
proof -
  have "fst (create_hall s tid p) =
          Inl (case find (\<lambda>t. theater_id t = tid) (theaters (store s)) of
                 None \<Rightarrow> HTTPException 404 (Msg ''theater not found'')
               | Some t \<Rightarrow> HTTPException 400 (Msg ''each row must have at least 6 seats''))
        \<and> halls (store (snd (create_hall s tid p))) = halls (store s)
        \<and> seats (store (snd (create_hall s tid p))) = seats (store s)
        \<and> post_hall s tid p = (Inl (HTTPException 422 (Msg ''validation error'')), s)"
    if short: "\<exists>r\<in>set (hc_rows p). hr_seat_count r < 6"
  proof -
    have lay: "seat_layout hid (hc_rows p)
          = Inl (HTTPException 400 (Msg ''each row must have at least 6 seats''))" for hid
      using short by (rule seat_layout_short_row)
    have res: "fst (create_hall s tid p) =
                 Inl (case find (\<lambda>t. theater_id t = tid) (theaters (store s)) of
                         None \<Rightarrow> HTTPException 404 (Msg ''theater not found'')
                       | Some t \<Rightarrow> HTTPException 400 (Msg ''each row must have at least 6 seats''))"
      by (simp add: create_hall_def Let_def lay split: option.splits)
    then have "halls (store (snd (create_hall s tid p))) = halls (store s)"
      and "seats (store (snd (create_hall s tid p))) = seats (store s)"
      using create_hall_Inl [OF res] by auto
    moreover have "\<not> HallCreate_valid p"
      using short by (fastforce simp: HallCreate_valid_def list_all_iff)
    ultimately show ?thesis using res by (simp add: post_hall_def)
  qed
  moreover have "rows_full (store (run reqs))"
    using store_inv_reachable [of reqs] by (simp add: store_inv_def)
  ultimately show ?thesis by blast
qed

theorem create_hall_rejects_short_rows_witness:
  "list_ex (\<lambda>r. hr_seat_count r < 6) (hc_rows short_row_hall)
   \<and> fst (create_hall demo 1 short_row_hall)
       = Inl (HTTPException 400 (Msg ''each row must have at least 6 seats''))
   \<and> halls (store (snd (create_hall demo 1 short_row_hall))) = halls (store demo)
   \<and> seats (store (snd (create_hall demo 1 short_row_hall))) = seats (store demo)
   \<and> post_hall demo 1 short_row_hall = (Inl (HTTPException 422 (Msg ''validation error'')), demo)
   \<and> rows_full (store demo)
   \<and> hall_row_numbers (store demo) 1 1 = [1, 2, 3, 4, 5, 6]
   \<and> show_row_numbers (store demo) 1 1 = [1, 2, 3, 4, 5, 6]"
proof -
  have h1: "\<exists>r\<in>set (hc_rows short_row_hall). hr_seat_count r < 6"
    by (simp add: short_row_hall_def)
  have h2: "find (\<lambda>t. theater_id t = 1) (theaters (store demo)) \<noteq> None" by code_simp
  have h3: "hall_row_numbers (store demo) 1 1 = [1, 2, 3, 4, 5, 6]" by code_simp
  have h4: "show_row_numbers (store demo) 1 1 = [1, 2, 3, 4, 5, 6]" by code_simp
  note t = create_hall_rejects_short_rows [of short_row_hall demo 1 demo_requests]
  from t h1 h2 have "fst (create_hall demo 1 short_row_hall)
       = Inl (HTTPException 400 (Msg ''each row must have at least 6 seats''))"
    by auto
  with t h1 h3 h4 show ?thesis by (simp add: demo_def list_ex_iff)
qed


end
